theory Spec2Isabelle
  imports Complex_Main "HOL-Library.Word" "HOL-Library.Sublist"
begin

unbundle bit_operations_syntax

section \<open>Data model\<close>

text \<open>
  The Go interfaces \<open>Scalar\<close> and \<open>Point\<close> are opaque field and group elements. A
  scalar is a value of a type \<open>'s\<close> of class \<open>field\<close> and a point a value of a type
  \<open>'p\<close> of class \<open>ab_group_add\<close>: \<open>Scalar.Add/Sub/Neg/Mul/Div/Inv/SetInt64\<close> are
  \<open>+\<close>, \<open>-\<close>, \<open>uminus\<close>, \<open>*\<close>, \<open>/\<close>, \<open>inverse\<close>, \<open>of_int\<close>, and
  \<open>Point.Add/Sub/Neg/Null\<close> are \<open>+\<close>, \<open>-\<close>, \<open>uminus\<close>, \<open>0\<close>. Everything else a suite
  offers is a field of the record \<open>suite\<close>. \<open>'r\<close> is the state of a random stream
  (\<open>cipher.Stream\<close>); a function that draws from a stream takes the state and returns the
  new one.

  Go functions that return \<open>(values, error)\<close> return a sum: \<open>Inl err\<close> for a non-nil
  error (the values are nil then), \<open>Inr values\<close> otherwise. A function that returns only
  an \<open>error\<close> returns \<open>error option\<close>, \<open>None\<close> for nil. \<open>MarshalBinary\<close> keeps both
  results, since \<open>PubId\<close> reads the buffer and drops the error.

  A nil interface value is modelled where the source or its callees give it a meaning:
  the point argument of \<open>Mul\<close> (\<open>Mul(nil, x)\<close>), the secret of \<open>EncShares\<close> and the
  stream of \<open>NewKey\<close> are options. The elements of the share slices are shares, not
  nil pointers.

  The first four errors are those that pvss.go declares. \<open>errorInvalidProof\<close> is the
  failure of \<open>DLEQProof.Verify\<close>, \<open>errorInvalidThreshold\<close> the failure of
  \<open>NewPriPoly\<close>, \<open>errorMarshal\<close> and \<open>errorData\<close> failures of \<open>MarshalBinary\<close> and
  \<open>Data\<close> of the group.
\<close>

type_synonym byte = "8 word"

datatype error =
    errorTooFewShares
  | errorDifferentLengths
  | errorEncVerification
  | errorDecVerification
  | errorInvalidProof
  | errorInvalidThreshold
  | errorMarshal
  | errorData

record ('s, 'p, 'r) suite =
  Base :: "'p"
  Mul :: "'p option \<Rightarrow> 's \<Rightarrow> 'p"
  ScalarPick :: "'r \<Rightarrow> 's \<times> 'r"
  PointPick :: "byte list \<Rightarrow> 'r \<Rightarrow> ('p \<times> byte list) \<times> 'r"
  Data :: "'p \<Rightarrow> error + byte list"
  MarshalBinary :: "'p \<Rightarrow> byte list \<times> error option"
  Hash :: "byte list \<Rightarrow> byte list"
  H_q :: "byte list \<Rightarrow> 's"
  NewKey :: "'r \<Rightarrow> 's \<times> 'r"

record 'p PubShare =
  PubShare_I :: int
  PubShare_V :: "'p"

record 's PriShare =
  PriShare_I :: int
  PriShare_V :: "'s"

record ('s, 'p) DLEQProof =
  DLEQ_C :: "'s"
  DLEQ_R :: "'s"
  DLEQ_VG :: "'p"
  DLEQ_VH :: "'p"

record ('s, 'p) PubVerShare =
  PubVerShare_S :: "'p PubShare"
  PubVerShare_P :: "('s, 'p) DLEQProof"

type_synonym ('s, 'p, 'r) verify_fn =
  "('s, 'p, 'r) suite \<Rightarrow> ('s, 'p) DLEQProof \<Rightarrow> 'p \<Rightarrow> 'p \<Rightarrow> 'p \<Rightarrow> 'p \<Rightarrow> error option"

type_synonym ('s, 'p, 'r) newproof_fn =
  "('s, 'p, 'r) suite \<Rightarrow> 'p \<Rightarrow> 'p \<Rightarrow> 's \<Rightarrow> 'r \<Rightarrow>
   (error + (('s, 'p) DLEQProof \<times> 'p \<times> 'p)) \<times> 'r"

type_synonym ('s, 'p, 'r) recover_fn =
  "('s, 'p, 'r) suite \<Rightarrow> 'p PubShare list \<Rightarrow> int \<Rightarrow> int \<Rightarrow> error + 'p"

section \<open>Package pvss (src/share/pvss/pvss.go)\<close>

text \<open>
  The functions of packages \<open>proof\<close> and \<open>share\<close> that pvss.go calls are parameters
  here: \<open>verify\<close> is \<open>DLEQProof.Verify\<close>, \<open>newproof\<close> is \<open>proof.NewDLEQProof\<close> and
  \<open>recover\<close> is \<open>share.RecoverCommit\<close>.
\<close>

definition VerifyEncShare ::
  "('s, 'p, 'r) verify_fn \<Rightarrow>
   ('s, 'p, 'r) suite \<Rightarrow> 'p \<Rightarrow> 'p \<Rightarrow> 'p \<Rightarrow> ('s, 'p) PubVerShare \<Rightarrow> error option" where
  "VerifyEncShare verify suite H X sH encShare =
     (case verify suite (PubVerShare_P encShare) H X sH (PubShare_V (PubVerShare_S encShare)) of
        Some err \<Rightarrow> Some errorEncVerification
      | None \<Rightarrow> None)"

definition VerifyEncShareBatch ::
  "('s, 'p, 'r) verify_fn \<Rightarrow>
   ('s, 'p, 'r) suite \<Rightarrow> 'p \<Rightarrow> 'p list \<Rightarrow> 'p list \<Rightarrow> ('s, 'p) PubVerShare list \<Rightarrow>
   error + ('p list \<times> ('s, 'p) PubVerShare list)" where
  "VerifyEncShareBatch verify suite H X sH encShares =
     (if length X \<noteq> length sH \<or> length sH \<noteq> length encShares then Inl errorDifferentLengths
      else Inr (foldl (\<lambda>(K, E) i.
                  if VerifyEncShare verify suite H (X ! i) (sH ! i) (encShares ! i) = None
                  then (K @ [X ! i], E @ [encShares ! i]) else (K, E))
                ([], []) [0..<length X]))"

definition DecShare ::
  "('s::field, 'p, 'r) verify_fn \<Rightarrow>
   ('s, 'p, 'r) newproof_fn \<Rightarrow>
   ('s, 'p, 'r) suite \<Rightarrow> 'p \<Rightarrow> 'p \<Rightarrow> 'p \<Rightarrow> 's \<Rightarrow> ('s, 'p) PubVerShare \<Rightarrow> 'r \<Rightarrow>
   (error + ('s, 'p) PubVerShare) \<times> 'r" where
  "DecShare verify newproof suite H X sH x encShare rand =
     (case VerifyEncShare verify suite H X sH encShare of
        Some err \<Rightarrow> (Inl err, rand)
      | None \<Rightarrow>
          (let G = Base suite;
               V = Mul suite (Some (PubShare_V (PubVerShare_S encShare))) (inverse x);
               ps = \<lparr>PubShare_I = PubShare_I (PubVerShare_S encShare), PubShare_V = V\<rparr>
           in case newproof suite G V x rand of
                (Inl err, rand') \<Rightarrow> (Inl err, rand')
              | (Inr (P, _, _), rand') \<Rightarrow> (Inr \<lparr>PubVerShare_S = ps, PubVerShare_P = P\<rparr>, rand')))"

definition DecShareBatch ::
  "('s::field, 'p, 'r) verify_fn \<Rightarrow>
   ('s, 'p, 'r) newproof_fn \<Rightarrow>
   ('s, 'p, 'r) suite \<Rightarrow> 'p \<Rightarrow> 'p list \<Rightarrow> 'p list \<Rightarrow> 's \<Rightarrow> ('s, 'p) PubVerShare list \<Rightarrow> 'r \<Rightarrow>
   (error + ('p list \<times> ('s, 'p) PubVerShare list \<times> ('s, 'p) PubVerShare list)) \<times> 'r" where
  "DecShareBatch verify newproof suite H X sH x encShares rand =
     (if length X \<noteq> length sH \<or> length sH \<noteq> length encShares
      then (Inl errorDifferentLengths, rand)
      else (case foldl (\<lambda>(K, E, D, rnd) i.
                    case DecShare verify newproof suite H (X ! i) (sH ! i) x (encShares ! i) rnd of
                      (Inr ds, rnd') \<Rightarrow> (K @ [X ! i], E @ [encShares ! i], D @ [ds], rnd')
                    | (Inl err, rnd') \<Rightarrow> (K, E, D, rnd'))
                  ([], [], [], rand) [0..<length encShares] of
              (K, E, D, rnd) \<Rightarrow> (Inr (K, E, D), rnd)))"

definition VerifyDecShare ::
  "('s, 'p, 'r) verify_fn \<Rightarrow>
   ('s, 'p, 'r) suite \<Rightarrow> 'p \<Rightarrow> 'p \<Rightarrow> ('s, 'p) PubVerShare \<Rightarrow> ('s, 'p) PubVerShare \<Rightarrow> error option" where
  "VerifyDecShare verify suite G X encShare decShare =
     (case verify suite (PubVerShare_P decShare) G (PubShare_V (PubVerShare_S decShare)) X
             (PubShare_V (PubVerShare_S encShare)) of
        Some err \<Rightarrow> Some errorDecVerification
      | None \<Rightarrow> None)"

definition VerifyDecShareBatch ::
  "('s, 'p, 'r) verify_fn \<Rightarrow>
   ('s, 'p, 'r) suite \<Rightarrow> 'p \<Rightarrow> 'p list \<Rightarrow> ('s, 'p) PubVerShare list \<Rightarrow> ('s, 'p) PubVerShare list \<Rightarrow>
   error + ('s, 'p) PubVerShare list" where
  "VerifyDecShareBatch verify suite G X encShares decShares =
     (if length X \<noteq> length encShares \<or> length encShares \<noteq> length decShares
      then Inl errorDifferentLengths
      else Inr (foldl (\<lambda>D i.
                  if VerifyDecShare verify suite G (X ! i) (encShares ! i) (decShares ! i) = None
                  then D @ [decShares ! i] else D)
                [] [0..<length X]))"

definition RecoverSecret ::
  "('s, 'p, 'r) verify_fn \<Rightarrow>
   ('s, 'p, 'r) recover_fn \<Rightarrow>
   ('s, 'p, 'r) suite \<Rightarrow> 'p \<Rightarrow> 'p list \<Rightarrow> ('s, 'p) PubVerShare list \<Rightarrow> ('s, 'p) PubVerShare list \<Rightarrow>
   int \<Rightarrow> int \<Rightarrow> error + 'p" where
  "RecoverSecret verify recover suite G X encShares decShares t n =
     (case VerifyDecShareBatch verify suite G X encShares decShares of
        Inl err \<Rightarrow> Inl err
      | Inr D \<Rightarrow>
          if int (length D) < t then Inl errorTooFewShares
          else recover suite (map PubVerShare_S D) t n)"


section \<open>Package proof: DLEQ proofs\<close>

text \<open>
  Modelled from the spec: \<open>proof.NewDLEQProof\<close>, \<open>proof.NewDLEQProofBatch\<close> and
  \<open>DLEQProof.Verify\<close> are not among the source files; the definitions follow section 4.2
  of the specification. The prover draws the ephemeral \<open>v\<close>, commits to \<open>vG = v\<cdot>G\<close> and
  \<open>vH = v\<cdot>H\<close>, takes the challenge \<open>c = H_q(Hash(vG \<parallel> vH))\<close> over the encodings of the
  two commitments and answers \<open>r = v - c\<cdot>x\<close>. The proof record keeps the commitments in
  \<open>VG\<close> and \<open>VH\<close> (section 3); the verifier does not read them.
\<close>

text \<open>
  Modelled from the spec: the Fiat-Shamir challenge of \<open>proof.NewDLEQProof\<close> and
  \<open>DLEQProof.Verify\<close> (not among the source files), "c = H_q(Hash(vG \<parallel> vH)) where H_q
  reduces the hash output modulo the scalar-field order".
\<close>

definition challenge :: "('s, 'p, 'r) suite \<Rightarrow> 'p \<Rightarrow> 'p \<Rightarrow> 's" where
  "challenge suite vG vH =
     H_q suite (Hash suite (fst (MarshalBinary suite vG) @ fst (MarshalBinary suite vH)))"

text \<open>
  Modelled from the spec: \<open>proof.NewDLEQProof(suite, G, H, x)\<close> (not among the source
  files), steps 1 to 5 of section 4.2; it returns the proof and the two points
  \<open>xG = x\<cdot>G\<close> and \<open>xH = x\<cdot>H\<close>, and has no error case.
\<close>

definition NewDLEQProof :: "('s::field, 'p, 'r) newproof_fn" where
  "NewDLEQProof suite G H x rand =
     (let (v, rand') = ScalarPick suite rand;
          vG = Mul suite (Some G) v;
          vH = Mul suite (Some H) v;
          c = challenge suite vG vH;
          r = v - c * x;
          xG = Mul suite (Some G) x;
          xH = Mul suite (Some H) x
      in (Inr (\<lparr>DLEQ_C = c, DLEQ_R = r, DLEQ_VG = vG, DLEQ_VH = vH\<rparr>, xG, xH), rand'))"

text \<open>
  Modelled from the spec: \<open>DLEQProof.Verify(suite, G, H, A, B)\<close> (not among the source
  files): "Recompute vG' = r\<cdot>G + c\<cdot>A and vH' = r\<cdot>H + c\<cdot>B. Recompute
  c' = H_q(Hash(vG' \<parallel> vH')). Accept iff c' = c."
\<close>

definition Verify :: "('s::field, 'p::ab_group_add, 'r) verify_fn" where
  "Verify suite p G H A B =
     (let vG' = Mul suite (Some G) (DLEQ_R p) + Mul suite (Some A) (DLEQ_C p);
          vH' = Mul suite (Some H) (DLEQ_R p) + Mul suite (Some B) (DLEQ_C p);
          c' = challenge suite vG' vH'
      in if c' = DLEQ_C p then None else Some errorInvalidProof)"

text \<open>
  Modelled from the spec: \<open>proof.NewDLEQProofBatch\<close> (not among the source files) yields
  "per-index proofs and the two per-index DH products", one challenge per proof, and
  "fails with DifferentLengths if vectors disagree".
\<close>

fun NewDLEQProofBatch_loop ::
  "('s::field, 'p, 'r) suite \<Rightarrow> 'p list \<Rightarrow> 'p list \<Rightarrow> 's list \<Rightarrow> 'r \<Rightarrow>
   (error + (('s, 'p) DLEQProof list \<times> 'p list \<times> 'p list)) \<times> 'r" where
  "NewDLEQProofBatch_loop suite (g # G) (h # H) (x # secrets) rand =
     (case NewDLEQProof suite g h x rand of
        (Inl err, rand') \<Rightarrow> (Inl err, rand')
      | (Inr (p, xG, xH), rand') \<Rightarrow>
          (case NewDLEQProofBatch_loop suite G H secrets rand' of
             (Inl err, rand'') \<Rightarrow> (Inl err, rand'')
           | (Inr (proofs, xGs, xHs), rand'') \<Rightarrow> (Inr (p # proofs, xG # xGs, xH # xHs), rand'')))"
| "NewDLEQProofBatch_loop suite G H secrets rand = (Inr ([], [], []), rand)"

definition NewDLEQProofBatch ::
  "('s::field, 'p, 'r) suite \<Rightarrow> 'p list \<Rightarrow> 'p list \<Rightarrow> 's list \<Rightarrow> 'r \<Rightarrow>
   (error + (('s, 'p) DLEQProof list \<times> 'p list \<times> 'p list)) \<times> 'r" where
  "NewDLEQProofBatch suite G H secrets rand =
     (if length G \<noteq> length H \<or> length H \<noteq> length secrets then (Inl errorDifferentLengths, rand)
      else NewDLEQProofBatch_loop suite G H secrets rand)"

section \<open>Package share: polynomials and Lagrange interpolation in the exponent\<close>

text \<open>
  Modelled from the spec: \<open>share.NewPriPoly\<close>, \<open>PriPoly.Eval\<close>, \<open>PriPoly.Shares\<close>,
  \<open>PriPoly.Commit\<close>, \<open>PubPoly.Eval\<close> and \<open>share.RecoverCommit\<close> are not among the source
  files; the definitions follow sections 3 and 4.1 of the specification. Share indices
  are 1-based and the share of index \<open>i\<close> is the value of the polynomial at \<open>i\<close>.
  \<open>NewPriPoly\<close> fails for a threshold below 1 (\<open>None\<close>); \<open>PubPoly.Eval\<close> starts from
  the last commitment and has no value for an empty commitment vector (\<open>None\<close>).
\<close>

text \<open>
  Modelled from the spec: \<open>share.PriPoly\<close>, the "coefficient vector c[0..t-1] of
  Scalars", and \<open>share.PubPoly\<close>, the "base point B and commitment vector C[0..t-1]"
  (types not among the source files).
\<close>

record 's PriPoly =
  PriPoly_coeffs :: "'s list"

record 'p PubPoly =
  PubPoly_b :: "'p"
  PubPoly_commits :: "'p list"

text \<open>
  Modelled from the spec: \<open>share.NewPriPoly(group, t, s_opt, rand)\<close> (not among the source
  files): "Draw c[0] = s_opt if given else rand; draw c[1..t-1] uniformly. Fails if
  t < 1." \<open>pick_scalars\<close> draws the \<open>t - 1\<close> further coefficients one after the other.
\<close>

fun pick_scalars :: "('s, 'p, 'r) suite \<Rightarrow> nat \<Rightarrow> 'r \<Rightarrow> 's list \<times> 'r" where
  "pick_scalars suite 0 rand = ([], rand)"
| "pick_scalars suite (Suc k) rand =
     (let (c, rand1) = ScalarPick suite rand;
          (cs, rand2) = pick_scalars suite k rand1
      in (c # cs, rand2))"

definition NewPriPoly ::
  "('s, 'p, 'r) suite \<Rightarrow> int \<Rightarrow> 's option \<Rightarrow> 'r \<Rightarrow> 's PriPoly option \<times> 'r" where
  "NewPriPoly suite t s rand =
     (if t < 1 then (None, rand)
      else (let (c0, rand1) = (case s of Some s0 \<Rightarrow> (s0, rand) | None \<Rightarrow> ScalarPick suite rand);
                (cs, rand2) = pick_scalars suite (nat (t - 1)) rand1
            in (Some \<lparr>PriPoly_coeffs = c0 # cs\<rparr>, rand2)))"

text \<open>
  Modelled from the spec: \<open>PriPoly.Eval(i)\<close> is the share \<open>(i, \<Sum> c_j \<cdot> i^j)\<close> by Horner's
  rule, and \<open>PriPoly.Shares(n)\<close> is \<open>[Eval(1), ..., Eval(n)]\<close> (not among the source
  files).
\<close>

definition PriPoly_Eval :: "('s::field) PriPoly \<Rightarrow> int \<Rightarrow> 's PriShare" where
  "PriPoly_Eval p i =
     \<lparr>PriShare_I = i, PriShare_V = foldr (\<lambda>c acc. acc * of_int i + c) (PriPoly_coeffs p) 0\<rparr>"

definition PriPoly_Shares :: "('s::field) PriPoly \<Rightarrow> int \<Rightarrow> 's PriShare list" where
  "PriPoly_Shares p n = map (PriPoly_Eval p) [1..n]"

text \<open>
  Modelled from the spec: \<open>PriPoly.Commit(B)\<close> (not among the source files) "returns
  PubPoly{B, [B\<cdot>c_0, ..., B\<cdot>c_{t-1}]}. If B is nil, use the group's standard base G."
\<close>

definition PriPoly_Commit ::
  "('s, 'p, 'r) suite \<Rightarrow> 's PriPoly \<Rightarrow> 'p option \<Rightarrow> 'p PubPoly" where
  "PriPoly_Commit suite p B =
     (let b = (case B of None \<Rightarrow> Base suite | Some b0 \<Rightarrow> b0)
      in \<lparr>PubPoly_b = b, PubPoly_commits = map (\<lambda>c. Mul suite (Some b) c) (PriPoly_coeffs p)\<rparr>)"

text \<open>
  Modelled from the spec: \<open>PubPoly.Eval(i)\<close> (not among the source files): "acc = C_{t-1};
  for j = t-2 down to 0: acc = acc \<cdot> i + C_j. Returns PubShare(i, acc)."
\<close>

definition PubPoly_Eval ::
  "('s::field, 'p::ab_group_add, 'r) suite \<Rightarrow> 'p PubPoly \<Rightarrow> int \<Rightarrow> 'p PubShare option" where
  "PubPoly_Eval suite p i =
     (case rev (PubPoly_commits p) of
        [] \<Rightarrow> None
      | c_last # rest \<Rightarrow>
          Some \<lparr>PubShare_I = i,
                PubShare_V = foldl (\<lambda>acc c. Mul suite (Some acc) (of_int i) + c) c_last rest\<rparr>)"

text \<open>
  Modelled from the spec: \<open>share.RecoverCommit(suite, shares, t, n)\<close> (not among the
  source files): duplicates are "deduplicated by index, keeping the first"; it "fails
  with TooFewShares when fewer than t distinct indices are available"; it takes the
  "first t in provided order", computes for each the Lagrange coefficient at 0,
  \<open>\<lambda>_i(0) = \<Prod>_{j \<noteq> i} (- x_j) / (x_i - x_j)\<close>, and returns \<open>\<Sum>_i \<lambda>_i(0) \<cdot> V_i\<close>.
\<close>

fun dedup_shares :: "int list \<Rightarrow> 'p PubShare list \<Rightarrow> 'p PubShare list" where
  "dedup_shares seen [] = []"
| "dedup_shares seen (s # shares) =
     (if PubShare_I s \<in> set seen then dedup_shares seen shares
      else s # dedup_shares (PubShare_I s # seen) shares)"

definition lagrange_coeff :: "'p PubShare list \<Rightarrow> 'p PubShare \<Rightarrow> 's::field" where
  "lagrange_coeff sel s =
     (let xi = of_int (PubShare_I s);
          others = filter (\<lambda>s'. PubShare_I s' \<noteq> PubShare_I s) sel;
          num = prod_list (map (\<lambda>s'. - of_int (PubShare_I s')) others);
          den = prod_list (map (\<lambda>s'. xi - of_int (PubShare_I s')) others)
      in num / den)"

definition RecoverCommit :: "('s::field, 'p::ab_group_add, 'r) recover_fn" where
  "RecoverCommit suite shares t n =
     (let ds = dedup_shares [] shares
      in if int (length ds) < t then Inl errorTooFewShares
         else (let sel = take (nat t) ds
               in Inr (sum_list (map (\<lambda>s. Mul suite (Some (PubShare_V s)) (lagrange_coeff sel s)) sel))))"

section \<open>EncShares (src/share/pvss/pvss.go)\<close>

text \<open>
  \<open>EncShares\<close> is the source's; it calls the functions of packages \<open>share\<close> and
  \<open>proof\<close> above. \<open>random.Stream\<close> is the state \<open>rand\<close>. A failing \<open>NewPriPoly\<close> (a
  panic of the Go program) is the error \<open>errorInvalidThreshold\<close>.
\<close>

definition EncShares ::
  "('s::field, 'p, 'r) suite \<Rightarrow> 'p \<Rightarrow> 'p list \<Rightarrow> 's option \<Rightarrow> int \<Rightarrow> 'r \<Rightarrow>
   (error + (('s, 'p) PubVerShare list \<times> 'p PubPoly)) \<times> 'r" where
  "EncShares suite H X secret t rand =
     (let n = length X in
      case NewPriPoly suite t secret rand of
        (None, rand1) \<Rightarrow> (Inl errorInvalidThreshold, rand1)
      | (Some priPoly, rand1) \<Rightarrow>
          (let priShares = PriPoly_Shares priPoly (int n);
               pubPoly = PriPoly_Commit suite priPoly (Some H);
               indices = map (\<lambda>i. PriShare_I (priShares ! i)) [0..<n];
               values = map (\<lambda>i. PriShare_V (priShares ! i)) [0..<n];
               HS = map (\<lambda>i. H) [0..<n]
           in case NewDLEQProofBatch suite HS X values rand1 of
                (Inl err, rand2) \<Rightarrow> (Inl err, rand2)
              | (Inr (proofs, _, sX), rand2) \<Rightarrow>
                  (Inr (map (\<lambda>i. \<lparr>PubVerShare_S = \<lparr>PubShare_I = indices ! i, PubShare_V = sX ! i\<rparr>,
                                   PubVerShare_P = proofs ! i\<rparr>) [0..<n],
                        pubPoly), rand2)))"

section \<open>Package key (src/unnamed/part_000)\<close>

record ('s, 'p, 'r) KeyPair =
  Suite :: "('s, 'p, 'r) suite"
  Public :: "'p"
  Secret :: "'s"

text \<open>
  \<open>Gen\<close> overwrites the three fields of its receiver, so the model builds the record.
  \<open>NewKeyPair\<close> runs \<open>Gen\<close> on a fresh \<open>KeyPair\<close> with the global stream \<open>random.Stream\<close>.
\<close>

definition Gen :: "('s, 'p, 'r) suite \<Rightarrow> 'r \<Rightarrow> ('s, 'p, 'r) KeyPair \<times> 'r" where
  "Gen suite random =
     (let (secret, random') = NewKey suite random
      in (\<lparr>Suite = suite, Public = Mul suite None secret, Secret = secret\<rparr>, random'))"

definition NewKeyPair :: "('s, 'p, 'r) suite \<Rightarrow> 'r \<Rightarrow> ('s, 'p, 'r) KeyPair \<times> 'r" where
  "NewKeyPair suite Stream = Gen suite Stream"

text \<open>
  \<open>base64.RawURLEncoding.EncodeToString\<close> of the Go standard library: RFC 4648 with the
  URL alphabet and no padding.
\<close>

definition encodeURL :: string where
  "encodeURL = ''ABCDEFGHIJKLMNOPQRSTUVWXYZabcdefghijklmnopqrstuvwxyz0123456789-_''"

fun EncodeToString :: "byte list \<Rightarrow> string" where
  "EncodeToString (a # b # c # src) =
     (let v = unat a * 65536 + unat b * 256 + unat c
      in encodeURL ! (v div 262144 mod 64) # encodeURL ! (v div 4096 mod 64) #
         encodeURL ! (v div 64 mod 64) # encodeURL ! (v mod 64) # EncodeToString src)"
| "EncodeToString [a, b] =
     (let v = unat a * 65536 + unat b * 256
      in [encodeURL ! (v div 262144 mod 64), encodeURL ! (v div 4096 mod 64),
          encodeURL ! (v div 64 mod 64)])"
| "EncodeToString [a] =
     (let v = unat a * 65536
      in [encodeURL ! (v div 262144 mod 64), encodeURL ! (v div 4096 mod 64)])"
| "EncodeToString [] = []"

text \<open>
  Modelled from the spec: \<open>kyber.Sum(suite, buf)\<close> (not among the source files) is the
  hash of the suite applied to the buffer; the fingerprint is
  "Hash(Marshal(Public))" (section 6.3).
\<close>

definition Sum :: "('s, 'p, 'r) suite \<Rightarrow> byte list \<Rightarrow> byte list" where
  "Sum suite buf = Hash suite buf"

definition PubId :: "('s, 'p, 'r) KeyPair \<Rightarrow> string" where
  "PubId p =
     (let (buf, _) = MarshalBinary (Suite p) (Public p);
          hash = Sum (Suite p) buf
      in EncodeToString hash)"

section \<open>Package edwards25519 (src/unnamed/part_001)\<close>

text \<open>
  \<open>random.NonZeroBytes\<close>, \<open>sha512.Sum512\<close>, \<open>Scalar.SetBytes\<close> and the global
  \<open>random.Stream\<close> are parameters. \<open>NewKey_scalar\<close> is the array \<open>scalar\<close> after the
  three assignments; \<open>NewKey_ed25519\<close> passes its first 32 bytes to \<open>SetBytes\<close>.
\<close>

definition NewKey_scalar ::
  "(nat \<Rightarrow> 'r \<Rightarrow> byte list \<times> 'r) \<Rightarrow> (byte list \<Rightarrow> byte list) \<Rightarrow> 'r \<Rightarrow> 'r option \<Rightarrow>
   byte list \<times> 'r" where
  "NewKey_scalar NonZeroBytes Sum512 Stream stream =
     (let stream0 = (case stream of None \<Rightarrow> Stream | Some st \<Rightarrow> st);
          (buffer, stream') = NonZeroBytes 32 stream0;
          scalar = Sum512 buffer;
          scalar = scalar[0 := scalar ! 0 AND 0xf8];
          scalar = scalar[31 := scalar ! 31 AND 0x3f];
          scalar = scalar[31 := scalar ! 31 OR 0x40]
      in (scalar, stream'))"

definition NewKey_ed25519 ::
  "(nat \<Rightarrow> 'r \<Rightarrow> byte list \<times> 'r) \<Rightarrow> (byte list \<Rightarrow> byte list) \<Rightarrow> (byte list \<Rightarrow> 's) \<Rightarrow>
   'r \<Rightarrow> 'r option \<Rightarrow> 's \<times> 'r" where
  "NewKey_ed25519 NonZeroBytes Sum512 SetBytes Stream stream =
     (let (scalar, stream') = NewKey_scalar NonZeroBytes Sum512 Stream stream;
          secret = SetBytes (take 32 scalar)
      in (secret, stream'))"

section \<open>ElGamal encryption (src/examples/enc_test.go)\<close>

text \<open>The parameter \<open>group\<close> of the source is \<open>grp\<close> here; \<open>random.Stream\<close> is \<open>rand\<close>.\<close>

definition ElGamalEncrypt ::
  "('s, 'p::ab_group_add, 'r) suite \<Rightarrow> 'p \<Rightarrow> byte list \<Rightarrow> 'r \<Rightarrow> ('p \<times> 'p \<times> byte list) \<times> 'r" where
  "ElGamalEncrypt grp pubkey message rand =
     (let ((M, remainder), rand1) = PointPick grp message rand;
          (k, rand2) = ScalarPick grp rand1;
          K = Mul grp None k;
          S = Mul grp (Some pubkey) k;
          C = S + M
      in ((K, C, remainder), rand2))"

definition ElGamalDecrypt ::
  "('s, 'p::ab_group_add, 'r) suite \<Rightarrow> 's \<Rightarrow> 'p \<Rightarrow> 'p \<Rightarrow> error + byte list" where
  "ElGamalDecrypt grp prikey K C =
     (let S = Mul grp (Some K) prikey;
          M = C - S
      in Data grp M)"

section \<open>The contract of a suite\<close>

text \<open>
  Section 6.1 of the specification: \<open>Mul(P, x)\<close> is \<open>P\<cdot>x\<close>, \<open>Mul(nil, x)\<close> is \<open>G\<cdot>x\<close>, and
  the points are a module over the scalar field. \<open>Pick(data, rand)\<close> embeds a prefix of
  \<open>data\<close> in a point and returns the point and the rest; \<open>Data\<close> extracts what was
  embedded.
\<close>

definition group_contract :: "('s::field, 'p::ab_group_add, 'r) suite \<Rightarrow> bool" where
  "group_contract suite \<longleftrightarrow>
     (\<forall>x. Mul suite None x = Mul suite (Some (Base suite)) x) \<and>
     (\<forall>P a b. Mul suite (Some P) (a + b) = Mul suite (Some P) a + Mul suite (Some P) b) \<and>
     (\<forall>P Q a. Mul suite (Some (P + Q)) a = Mul suite (Some P) a + Mul suite (Some Q) a) \<and>
     (\<forall>P a b. Mul suite (Some (Mul suite (Some P) a)) b = Mul suite (Some P) (a * b)) \<and>
     (\<forall>P. Mul suite (Some P) 1 = P)"

definition embed_contract :: "('s, 'p, 'r) suite \<Rightarrow> bool" where
  "embed_contract suite \<longleftrightarrow>
     (\<forall>data rand.
        case PointPick suite data rand of
          ((M, remainder), rand') \<Rightarrow>
            length remainder \<le> length data \<and>
            drop (length data - length remainder) data = remainder \<and>
            Data suite M = Inr (take (length data - length remainder) data))"

section \<open>A concrete suite\<close>

text \<open>
  A small suite on which the definitions can be run: scalars and points are rational
  numbers, the base point is 1 and \<open>Mul\<close> is multiplication. The stream state is a
  counter. \<open>Pick\<close> embeds at most one byte in a point.
\<close>

definition toy_suite :: "(rat, rat, nat) suite" where
  "toy_suite =
     \<lparr>Base = 1,
      Mul = (\<lambda>P x. (case P of None \<Rightarrow> 1 | Some Q \<Rightarrow> Q) * x),
      ScalarPick = (\<lambda>r. (of_nat r + 2, Suc r)),
      PointPick = (\<lambda>data r. case data of [] \<Rightarrow> ((0, []), r)
                              | b # rest \<Rightarrow> ((of_int (uint b) + 1, rest), r)),
      Data = (\<lambda>p. if p = 0 then Inr [] else Inr [word_of_int (\<lfloor>p\<rfloor> - 1)]),
      MarshalBinary = (\<lambda>p. ([word_of_int \<lfloor>p\<rfloor>], None)),
      Hash = (\<lambda>bs. bs),
      H_q = (\<lambda>bs. of_int (foldr (\<lambda>b a. uint b + 3 * a) bs 0)),
      NewKey = (\<lambda>r. (of_nat r + 2, Suc r))\<rparr>"

text \<open>
  An encrypted share of the trustee with private key 2 (public key 2) for the share
  value 3 under \<open>H = 1\<close>, and its decryption, both with the proofs that
  \<open>NewDLEQProof\<close> produces from the stream state 0.
\<close>

definition toy_enc :: "(rat, rat) PubVerShare" where
  "toy_enc = \<lparr>PubVerShare_S = \<lparr>PubShare_I = 1, PubShare_V = 6\<rparr>,
              PubVerShare_P = \<lparr>DLEQ_C = 14, DLEQ_R = - 40, DLEQ_VG = 2, DLEQ_VH = 4\<rparr>\<rparr>"

definition toy_dec :: "(rat, rat) PubVerShare" where
  "toy_dec = \<lparr>PubVerShare_S = \<lparr>PubShare_I = 1, PubShare_V = 3\<rparr>,
              PubVerShare_P = \<lparr>DLEQ_C = 20, DLEQ_R = - 38, DLEQ_VG = 2, DLEQ_VH = 6\<rparr>\<rparr>"

text \<open>The concrete suite with a \<open>MarshalBinary\<close> that fails and returns an empty buffer.\<close>

definition failing_marshal_suite :: "(rat, rat, nat) suite" where
  "failing_marshal_suite = toy_suite\<lparr>MarshalBinary := (\<lambda>p. ([], Some errorMarshal))\<rparr>"

text \<open>
  The shares that \<open>EncShares\<close> deals on the concrete suite for the private keys 2, 3, 4,
  the secret 7, the threshold 2 and \<open>H = 5\<close> from the stream state 0 (the polynomial is
  \<open>7 + 2x\<close>), and their decryptions, each from the stream state 0.
\<close>

definition toy_encShares :: "(rat, rat) PubVerShare list" where
  "toy_encShares =
     [\<lparr>PubVerShare_S = \<lparr>PubShare_I = 1, PubShare_V = 18\<rparr>,
       PubVerShare_P = \<lparr>DLEQ_C = 33, DLEQ_R = - 294, DLEQ_VG = 15, DLEQ_VH = 6\<rparr>\<rparr>,
      \<lparr>PubVerShare_S = \<lparr>PubShare_I = 2, PubShare_V = 33\<rparr>,
       PubVerShare_P = \<lparr>DLEQ_C = 56, DLEQ_R = - 612, DLEQ_VG = 20, DLEQ_VH = 12\<rparr>\<rparr>,
      \<lparr>PubVerShare_S = \<lparr>PubShare_I = 3, PubShare_V = 52\<rparr>,
       PubVerShare_P = \<lparr>DLEQ_C = 85, DLEQ_R = - 1100, DLEQ_VG = 25, DLEQ_VH = 20\<rparr>\<rparr>]"

definition toy_decShares :: "(rat, rat) PubVerShare list" where
  "toy_decShares =
     [\<lparr>PubVerShare_S = \<lparr>PubShare_I = 1, PubShare_V = 9\<rparr>,
       PubVerShare_P = \<lparr>DLEQ_C = 56, DLEQ_R = - 110, DLEQ_VG = 2, DLEQ_VH = 18\<rparr>\<rparr>,
      \<lparr>PubVerShare_S = \<lparr>PubShare_I = 2, PubShare_V = 11\<rparr>,
       PubVerShare_P = \<lparr>DLEQ_C = 68, DLEQ_R = - 202, DLEQ_VG = 2, DLEQ_VH = 22\<rparr>\<rparr>,
      \<lparr>PubVerShare_S = \<lparr>PubShare_I = 3, PubShare_V = 13\<rparr>,
       PubVerShare_P = \<lparr>DLEQ_C = 80, DLEQ_R = - 318, DLEQ_VG = 2, DLEQ_VH = 26\<rparr>\<rparr>]"

section \<open>Notation for the proofs\<close>

text \<open>
  \<open>horner cs w\<close> is the value at \<open>w\<close> of the polynomial with the coefficient list
  \<open>cs\<close>, as \<open>PriPoly_Eval\<close> computes it. \<open>lagrange_sum z S f\<close> is the value at \<open>z\<close> of
  the Lagrange interpolant of \<open>f\<close> on the finite set of points \<open>S\<close>.
\<close>

abbreviation horner :: "'a::field list \<Rightarrow> 'a \<Rightarrow> 'a" where
  "horner cs w \<equiv> foldr (\<lambda>c acc. acc * w + c) cs 0"

abbreviation lagrange_sum :: "'a::field \<Rightarrow> 'a set \<Rightarrow> ('a \<Rightarrow> 'a) \<Rightarrow> 'a" where
  "lagrange_sum z S f \<equiv> (\<Sum>a\<in>S. f a * (\<Prod>b\<in>S - {a}. (z - b) / (a - b)))"

section \<open>The batch loops as filters\<close>

lemma foldl_filter_snoc:
  "foldl (\<lambda>D i. if P i then D @ [f i] else D) acc xs = acc @ map f (filter P xs)"
  by (induction xs arbitrary: acc) auto

lemma foldl_filter_snoc2:
  "foldl (\<lambda>(K, E) i. if P i then (K @ [f i], E @ [g i]) else (K, E)) (K0, E0) xs =
     (K0 @ map f (filter P xs), E0 @ map g (filter P xs))"
  by (induction xs arbitrary: K0 E0) auto

lemma VerifyDecShareBatch_filter:
  "length X = length encShares \<Longrightarrow> length encShares = length decShares \<Longrightarrow>
   VerifyDecShareBatch verify suite G X encShares decShares =
     Inr (map ((!) decShares)
       (filter (\<lambda>i. VerifyDecShare verify suite G (X ! i) (encShares ! i) (decShares ! i) = None)
          [0..<length X]))"
  by (simp add: VerifyDecShareBatch_def foldl_filter_snoc)

lemma NewDLEQProof_total:
  "\<exists>res rand'. NewDLEQProof suite G V x rand = (Inr res, rand')"
  by (simp add: NewDLEQProof_def Let_def split: prod.splits)

section \<open>Decrypted-share verification\<close>

text \<open>
  C2 (as amended). \<open>VerifyDecShare(suite, G, X, encShare, decShare)\<close> calls \<open>Verify\<close> on
  the proof of the decrypted share with the arguments
  \<open>(G, decShare.S.V, X, encShare.S.V)\<close> in that order: the bases are \<open>G\<close> and the
  decrypted point, the two points are the public key \<open>X\<close> and the encrypted point. It
  returns \<open>errorDecVerification\<close> when that call returns an error and nil otherwise.
  This holds for every implementation \<open>verify\<close> of \<open>Verify\<close>.
\<close>

theorem VerifyDecShare_argument_order:
  "VerifyDecShare verify suite G X encShare decShare =
     (case verify suite (PubVerShare_P decShare) G (PubShare_V (PubVerShare_S decShare)) X
             (PubShare_V (PubVerShare_S encShare)) of
        Some err \<Rightarrow> Some errorDecVerification
      | None \<Rightarrow> None)"
  by (simp add: VerifyDecShare_def)

text \<open>
  The order the claim states, \<open>(G, X, decShare.S.V, encShare.S.V)\<close>, is not what the
  function does: on the honest decrypted share \<open>toy_dec\<close> of \<open>toy_enc\<close> (private key 2,
  public key 2, base point 1) \<open>VerifyDecShare\<close> accepts, and \<open>Verify\<close> with the
  arguments in the claimed order rejects.
\<close>

theorem VerifyDecShare_claimed_order_counterexample:
  "VerifyDecShare Verify toy_suite 1 2 toy_enc toy_dec \<noteq>
     (case Verify toy_suite (PubVerShare_P toy_dec) 1 2 (PubShare_V (PubVerShare_S toy_dec))
             (PubShare_V (PubVerShare_S toy_enc)) of
        Some err \<Rightarrow> Some errorDecVerification
      | None \<Rightarrow> None)"
  by (simp add: VerifyDecShare_def Verify_def challenge_def toy_suite_def toy_enc_def toy_dec_def)

section \<open>Decryption of one share\<close>

text \<open>
  C3. \<open>DecShare\<close> verifies the encryption proof first. If the proof is invalid it returns
  \<open>errorEncVerification\<close> and no share, and has drawn nothing from the random stream.
  Otherwise it returns the share with the index of the encrypted share, the point
  \<open>Mul(encShare.S.V, Inv(x))\<close> and the proof that \<open>NewDLEQProof(suite, G, V, x)\<close>
  produced for the base point \<open>G\<close> of the suite. \<open>NewDLEQProof\<close> is a parameter; the
  specification gives it no way to fail, which is the hypothesis.
\<close>

theorem DecShare_result:
  assumes total: "\<forall>G V x rand. \<exists>res rand'. newproof suite G V x rand = (Inr res, rand')"
  shows "(VerifyEncShare verify suite H X sH encShare \<noteq> None \<longrightarrow>
            DecShare verify newproof suite H X sH x encShare rand = (Inl errorEncVerification, rand)) \<and>
         (VerifyEncShare verify suite H X sH encShare = None \<longrightarrow>
            (\<exists>P xG xH rand'.
               newproof suite (Base suite)
                 (Mul suite (Some (PubShare_V (PubVerShare_S encShare))) (inverse x)) x rand
                 = (Inr (P, xG, xH), rand') \<and>
               DecShare verify newproof suite H X sH x encShare rand =
                 (Inr \<lparr>PubVerShare_S =
                        \<lparr>PubShare_I = PubShare_I (PubVerShare_S encShare),
                         PubShare_V = Mul suite (Some (PubShare_V (PubVerShare_S encShare))) (inverse x)\<rparr>,
                       PubVerShare_P = P\<rparr>, rand')))"
proof (intro conjI impI)
  assume "VerifyEncShare verify suite H X sH encShare \<noteq> None"
  then obtain e where e: "VerifyEncShare verify suite H X sH encShare = Some e" by auto
  then have "e = errorEncVerification"
    by (auto simp: VerifyEncShare_def split: option.splits)
  with e show "DecShare verify newproof suite H X sH x encShare rand = (Inl errorEncVerification, rand)"
    by (simp add: DecShare_def)
next
  assume ok: "VerifyEncShare verify suite H X sH encShare = None"
  let ?V = "Mul suite (Some (PubShare_V (PubVerShare_S encShare))) (inverse x)"
  from total obtain res rand' where r: "newproof suite (Base suite) ?V x rand = (Inr res, rand')"
    by blast
  obtain P xG xH where res: "res = (P, xG, xH)" by (cases res) auto
  show "\<exists>P xG xH rand'.
               newproof suite (Base suite) ?V x rand = (Inr (P, xG, xH), rand') \<and>
               DecShare verify newproof suite H X sH x encShare rand =
                 (Inr \<lparr>PubVerShare_S =
                        \<lparr>PubShare_I = PubShare_I (PubVerShare_S encShare), PubShare_V = ?V\<rparr>,
                       PubVerShare_P = P\<rparr>, rand')"
    using ok r res by (auto simp: DecShare_def Let_def)
qed

text \<open>
  On the concrete suite: the encrypted share \<open>toy_enc\<close> verifies against \<open>sH = 3\<close> and
  decrypts to \<open>toy_dec\<close>; against \<open>sH = 4\<close> it does not verify and nothing is decrypted.
\<close>

theorem DecShare_result_witness:
  "VerifyEncShare Verify toy_suite 1 2 3 toy_enc = None \<and>
   DecShare Verify NewDLEQProof toy_suite 1 2 3 2 toy_enc 0 = (Inr toy_dec, 1) \<and>
   VerifyEncShare Verify toy_suite 1 2 4 toy_enc \<noteq> None \<and>
   DecShare Verify NewDLEQProof toy_suite 1 2 4 2 toy_enc 0 = (Inl errorEncVerification, 0)"
proof -
  have t: "\<forall>G V x rand. \<exists>res rand'. NewDLEQProof toy_suite G V x rand = (Inr res, rand')"
    by (intro allI NewDLEQProof_total)
  have a: "VerifyEncShare Verify toy_suite 1 2 3 toy_enc = None"
    by (simp add: VerifyEncShare_def Verify_def challenge_def toy_suite_def toy_enc_def)
  have b: "VerifyEncShare Verify toy_suite 1 2 4 toy_enc \<noteq> None"
    by (simp add: VerifyEncShare_def Verify_def challenge_def toy_suite_def toy_enc_def)
  have c: "NewDLEQProof toy_suite 1 3 2 0 =
      (Inr (\<lparr>DLEQ_C = 20, DLEQ_R = - 38, DLEQ_VG = 2, DLEQ_VH = 6\<rparr>, 2, 6), 1)"
    by (simp add: NewDLEQProof_def challenge_def toy_suite_def)
  from DecShare_result [where newproof = NewDLEQProof and suite = toy_suite and verify = Verify
      and H = 1 and X = 2 and sH = 3 and encShare = toy_enc and x = 2 and rand = 0, OF t] a c
  have d: "DecShare Verify NewDLEQProof toy_suite 1 2 3 2 toy_enc 0 = (Inr toy_dec, 1)"
    by (simp add: toy_suite_def toy_enc_def toy_dec_def)
  from DecShare_result [where newproof = NewDLEQProof and suite = toy_suite and verify = Verify
      and H = 1 and X = 2 and sH = 4 and encShare = toy_enc and x = 2 and rand = 0, OF t] b
  have e: "DecShare Verify NewDLEQProof toy_suite 1 2 4 2 toy_enc 0 = (Inl errorEncVerification, 0)"
    by simp
  from a b d e show ?thesis by simp
qed

section \<open>Recovery\<close>

text \<open>
  C5. \<open>RecoverSecret\<close> returns \<open>errorDifferentLengths\<close> when the three slices do not
  have one length, and then does not call \<open>RecoverCommit\<close>. Otherwise \<open>D\<close> is the list
  of the decrypted shares that pass \<open>VerifyDecShare\<close> with their key and encrypted
  share, in input order; if \<open>D\<close> has fewer than \<open>t\<close> elements the result is
  \<open>errorTooFewShares\<close>, and otherwise it is what \<open>RecoverCommit\<close> returns for the shares
  of \<open>D\<close>. This holds for every implementation of \<open>Verify\<close> and of \<open>RecoverCommit\<close>.
\<close>

theorem RecoverSecret_cases:
  "RecoverSecret verify recover suite G X encShares decShares t n =
     (if length X \<noteq> length encShares \<or> length encShares \<noteq> length decShares
      then Inl errorDifferentLengths
      else (let D = map ((!) decShares)
                      (filter (\<lambda>i. VerifyDecShare verify suite G (X ! i) (encShares ! i)
                                     (decShares ! i) = None) [0..<length X])
            in if int (length D) < t then Inl errorTooFewShares
               else recover suite (map PubVerShare_S D) t n))"
proof (cases "length X = length encShares \<and> length encShares = length decShares")
  case True
  then show ?thesis
    by (simp add: RecoverSecret_def VerifyDecShareBatch_filter)
next
  case False
  then have "VerifyDecShareBatch verify suite G X encShares decShares = Inl errorDifferentLengths"
    by (auto simp: VerifyDecShareBatch_def)
  with False show ?thesis
    by (auto simp: RecoverSecret_def)
qed

text \<open>
  On the concrete suite, with the spec's \<open>Verify\<close> and \<open>RecoverCommit\<close>: one valid
  share and threshold 1 recover the point 3; threshold 2 gives \<open>errorTooFewShares\<close>;
  two keys for one share give \<open>errorDifferentLengths\<close>.
\<close>

theorem RecoverSecret_cases_witness:
  "RecoverSecret Verify RecoverCommit toy_suite 1 [2] [toy_enc] [toy_dec] 1 1 = Inr 3 \<and>
   RecoverSecret Verify RecoverCommit toy_suite 1 [2] [toy_enc] [toy_dec] 2 1 = Inl errorTooFewShares \<and>
   RecoverSecret Verify RecoverCommit toy_suite 1 [2, 2] [toy_enc] [toy_dec] 1 1 = Inl errorDifferentLengths"
proof -
  have v: "VerifyDecShare Verify toy_suite 1 2 toy_enc toy_dec = None"
    by (simp add: VerifyDecShare_def Verify_def challenge_def toy_suite_def toy_enc_def toy_dec_def)
  have r: "RecoverCommit toy_suite [PubVerShare_S toy_dec] 1 1 = Inr 3"
    by (simp add: RecoverCommit_def lagrange_coeff_def toy_suite_def toy_dec_def)
  show ?thesis
    using v r
      RecoverSecret_cases [of Verify RecoverCommit toy_suite 1 "[2]" "[toy_enc]" "[toy_dec]" 1 1]
      RecoverSecret_cases [of Verify RecoverCommit toy_suite 1 "[2]" "[toy_enc]" "[toy_dec]" 2 1]
      RecoverSecret_cases [of Verify RecoverCommit toy_suite 1 "[2, 2]" "[toy_enc]" "[toy_dec]" 1 1]
    by simp
qed

section \<open>Length checks of the batch functions\<close>

text \<open>
  C6. \<open>VerifyEncShareBatch\<close>, \<open>DecShareBatch\<close> and \<open>VerifyDecShareBatch\<close> return
  \<open>errorDifferentLengths\<close> and no result slices when their three parallel slices do
  not all have the same length; \<open>DecShareBatch\<close> has then drawn nothing from the
  random stream.
\<close>

theorem batch_DifferentLengths:
  "(length X \<noteq> length sH \<or> length sH \<noteq> length encShares \<longrightarrow>
      VerifyEncShareBatch verify suite H X sH encShares = Inl errorDifferentLengths \<and>
      DecShareBatch verify newproof suite H X sH x encShares rand = (Inl errorDifferentLengths, rand)) \<and>
   (length X \<noteq> length encShares \<or> length encShares \<noteq> length decShares \<longrightarrow>
      VerifyDecShareBatch verify suite G X encShares decShares = Inl errorDifferentLengths)"
  by (simp add: VerifyEncShareBatch_def DecShareBatch_def VerifyDecShareBatch_def)

text \<open>Four public keys and three of everything else (scenario S4 of the specification).\<close>

theorem batch_DifferentLengths_witness:
  "VerifyEncShareBatch Verify toy_suite 5 [2, 3, 4, 5] [5, 10, 15] [toy_enc, toy_enc, toy_enc]
     = Inl errorDifferentLengths \<and>
   DecShareBatch Verify NewDLEQProof toy_suite 5 [2, 3, 4, 5] [5, 10, 15] 2 [toy_enc, toy_enc, toy_enc] 0
     = (Inl errorDifferentLengths, 0) \<and>
   VerifyDecShareBatch Verify toy_suite 1 [2, 3, 4, 5] [toy_enc, toy_enc, toy_enc] [toy_dec, toy_dec, toy_dec]
     = Inl errorDifferentLengths"
  using batch_DifferentLengths [of "[2, 3, 4, 5]" "[5, 10, 15]" "[toy_enc, toy_enc, toy_enc]"
      Verify toy_suite 5 NewDLEQProof 2 0 "[toy_dec, toy_dec, toy_dec]" 1]
  by simp

section \<open>Batch verification and batch decryption\<close>

lemma map_nth_filter_nths:
  "map ((!) xs) (filter P [0..<length xs]) = nths xs {i. P i}"
proof (induction xs rule: rev_induct)
  case Nil
  then show ?case by simp
next
  case (snoc x xs)
  have "map ((!) (xs @ [x])) (filter P [0..<length xs]) = map ((!) xs) (filter P [0..<length xs])"
    by (rule map_cong) (auto simp: nth_append)
  with snoc show ?case
    by (auto simp: nths_append)
qed

lemma subseq_map_nth_filter: "subseq (map ((!) xs) (filter P [0..<length xs])) xs"
  unfolding map_nth_filter_nths subseq_conv_nths by blast

lemma subseq_map_nth_sorted:
  assumes "sorted_wrt (<) js" "set js \<subseteq> {..<length xs}"
  shows "subseq (map ((!) xs) js) xs"
proof -
  have "js = filter (\<lambda>i. i \<in> set js) [0..<length xs]"
  proof (rule sorted_distinct_set_unique)
    show "sorted js" using assms(1) by (simp add: strict_sorted_iff)
    show "distinct js" using assms(1) by (simp add: strict_sorted_iff)
    show "sorted (filter (\<lambda>i. i \<in> set js) [0..<length xs])" by (simp add: sorted_wrt_filter)
    show "distinct (filter (\<lambda>i. i \<in> set js) [0..<length xs])" by simp
    show "set js = set (filter (\<lambda>i. i \<in> set js) [0..<length xs])" using assms(2) by auto
  qed
  then have "map ((!) xs) js = map ((!) xs) (filter (\<lambda>i. i \<in> set js) [0..<length xs])" by simp
  then show ?thesis by (simp only: subseq_map_nth_filter)
qed

lemma VerifyEncShareBatch_filter:
  "length X = length sH \<Longrightarrow> length sH = length encShares \<Longrightarrow>
   VerifyEncShareBatch verify suite H X sH encShares =
     Inr (map ((!) X)
            (filter (\<lambda>i. VerifyEncShare verify suite H (X ! i) (sH ! i) (encShares ! i) = None)
               [0..<length X]),
          map ((!) encShares)
            (filter (\<lambda>i. VerifyEncShare verify suite H (X ! i) (sH ! i) (encShares ! i) = None)
               [0..<length X]))"
  by (simp add: VerifyEncShareBatch_def foldl_filter_snoc2)

lemma DecShare_Inr:
  assumes "DecShare verify newproof suite H X sH x encShare rand = (Inr ds, rand')"
  shows "VerifyEncShare verify suite H X sH encShare = None"
    and "PubVerShare_S ds = \<lparr>PubShare_I = PubShare_I (PubVerShare_S encShare),
            PubShare_V = Mul suite (Some (PubShare_V (PubVerShare_S encShare))) (inverse x)\<rparr>"
  using assms
  by (auto simp: DecShare_def Let_def split: option.splits prod.splits sum.splits)

lemma DecShareBatch_loop_inv:
  "\<exists>js D rand'.
     foldl (\<lambda>(K, E, D, rnd) i.
                    case DecShare verify newproof suite H (X ! i) (sH ! i) x (encShares ! i) rnd of
                      (Inr ds, rnd') \<Rightarrow> (K @ [X ! i], E @ [encShares ! i], D @ [ds], rnd')
                    | (Inl err, rnd') \<Rightarrow> (K, E, D, rnd'))
           ([], [], [], rand) [0..<m]
       = (map ((!) X) js, map ((!) encShares) js, D, rand') \<and>
     length D = length js \<and> sorted_wrt (<) js \<and> set js \<subseteq> {..<m} \<and>
     (\<forall>k<length js. \<exists>r r'.
        DecShare verify newproof suite H (X ! (js ! k)) (sH ! (js ! k)) x (encShares ! (js ! k)) r
          = (Inr (D ! k), r'))"
proof (induction m)
  case 0
  show ?case by simp
next
  case (Suc m)
  then obtain js D rand' where
    st: "foldl (\<lambda>(K, E, D, rnd) i.
                    case DecShare verify newproof suite H (X ! i) (sH ! i) x (encShares ! i) rnd of
                      (Inr ds, rnd') \<Rightarrow> (K @ [X ! i], E @ [encShares ! i], D @ [ds], rnd')
                    | (Inl err, rnd') \<Rightarrow> (K, E, D, rnd'))
           ([], [], [], rand) [0..<m]
       = (map ((!) X) js, map ((!) encShares) js, D, rand')"
    and len: "length D = length js" and srt: "sorted_wrt (<) js" and sub: "set js \<subseteq> {..<m}"
    and each: "\<forall>k<length js. \<exists>r r'.
        DecShare verify newproof suite H (X ! (js ! k)) (sH ! (js ! k)) x (encShares ! (js ! k)) r
          = (Inr (D ! k), r')"
    by blast
  obtain res r1 where step: "DecShare verify newproof suite H (X ! m) (sH ! m) x (encShares ! m) rand' = (res, r1)"
    by (cases "DecShare verify newproof suite H (X ! m) (sH ! m) x (encShares ! m) rand'") auto
  show ?case
  proof (cases res)
    case (Inl e)
    have st': "foldl (\<lambda>(K, E, D, rnd) i.
                    case DecShare verify newproof suite H (X ! i) (sH ! i) x (encShares ! i) rnd of
                      (Inr ds, rnd') \<Rightarrow> (K @ [X ! i], E @ [encShares ! i], D @ [ds], rnd')
                    | (Inl err, rnd') \<Rightarrow> (K, E, D, rnd'))
           ([], [], [], rand) [0..<Suc m]
       = (map ((!) X) js, map ((!) encShares) js, D, r1)"
      using st step Inl by simp
    have sub': "set js \<subseteq> {..<Suc m}" using sub by auto
    show ?thesis
      by (intro exI [of _ js] exI [of _ D] exI [of _ r1] conjI st' len srt sub' each)
  next
    case (Inr ds)
    have srt': "sorted_wrt (<) (js @ [m])"
      using srt sub by (auto simp: sorted_wrt_append)
    have each': "\<forall>k<length (js @ [m]). \<exists>r r'.
        DecShare verify newproof suite H (X ! ((js @ [m]) ! k)) (sH ! ((js @ [m]) ! k)) x
           (encShares ! ((js @ [m]) ! k)) r = (Inr ((D @ [ds]) ! k), r')"
    proof (intro allI impI)
      fix k assume k: "k < length (js @ [m])"
      show "\<exists>r r'. DecShare verify newproof suite H (X ! ((js @ [m]) ! k)) (sH ! ((js @ [m]) ! k)) x
           (encShares ! ((js @ [m]) ! k)) r = (Inr ((D @ [ds]) ! k), r')"
      proof (cases "k < length js")
        case True
        with each len show ?thesis by (simp add: nth_append)
      next
        case False
        with k have "k = length js" by simp
        with step Inr len show ?thesis by (auto simp: nth_append)
      qed
    qed
    have st': "foldl (\<lambda>(K, E, D, rnd) i.
                    case DecShare verify newproof suite H (X ! i) (sH ! i) x (encShares ! i) rnd of
                      (Inr ds, rnd') \<Rightarrow> (K @ [X ! i], E @ [encShares ! i], D @ [ds], rnd')
                    | (Inl err, rnd') \<Rightarrow> (K, E, D, rnd'))
           ([], [], [], rand) [0..<Suc m]
       = (map ((!) X) (js @ [m]), map ((!) encShares) (js @ [m]), D @ [ds], r1)"
      using st step Inr by simp
    have len': "length (D @ [ds]) = length (js @ [m])" using len by simp
    have sub': "set (js @ [m]) \<subseteq> {..<Suc m}" using sub by auto
    show ?thesis
      by (intro exI [of _ "js @ [m]"] exI [of _ "D @ [ds]"] exI [of _ r1] conjI
            st' len' srt' sub' each')
  qed
qed

text \<open>
  C4. When the three parallel slices have one length, no batch function returns an
  error. \<open>VerifyEncShareBatch\<close> returns the keys and the encrypted shares at the
  positions \<open>js\<close> whose share passes \<open>VerifyEncShare\<close>, in input order: both results
  are read off the inputs at the same positions, so they have one length, are
  index-aligned and are subsequences of the inputs, and every returned pair passes
  \<open>VerifyEncShare\<close>; a share that does not pass is left out. \<open>DecShareBatch\<close> returns
  keys, encrypted shares and decrypted shares for an increasing list of positions: each
  returned pair passes \<open>VerifyEncShare\<close>, and the decrypted share at the same place is
  what \<open>DecShare\<close> returned for that pair, with the index of the encrypted share.
  \<open>VerifyDecShareBatch\<close> returns the decrypted shares that pass \<open>VerifyDecShare\<close> with
  their key and encrypted share, in input order.
\<close>

theorem batch_alignment:
  assumes len: "length X = length sH" "length sH = length encShares"
  shows
  "(\<exists>js. VerifyEncShareBatch verify suite H X sH encShares
            = Inr (map ((!) X) js, map ((!) encShares) js) \<and>
         js = filter (\<lambda>i. VerifyEncShare verify suite H (X ! i) (sH ! i) (encShares ! i) = None)
                [0..<length X] \<and>
         subseq (map ((!) X) js) X \<and> subseq (map ((!) encShares) js) encShares \<and>
         (\<forall>k<length js. VerifyEncShare verify suite H (map ((!) X) js ! k) (sH ! (js ! k))
                           (map ((!) encShares) js ! k) = None)) \<and>
   (\<exists>js D rand'.
         DecShareBatch verify newproof suite H X sH x encShares rand
            = (Inr (map ((!) X) js, map ((!) encShares) js, D), rand') \<and>
         length D = length js \<and> sorted_wrt (<) js \<and> set js \<subseteq> {..<length X} \<and>
         subseq (map ((!) X) js) X \<and> subseq (map ((!) encShares) js) encShares \<and>
         (\<forall>k<length js.
            VerifyEncShare verify suite H (map ((!) X) js ! k) (sH ! (js ! k))
              (map ((!) encShares) js ! k) = None \<and>
            PubVerShare_S (D ! k) =
              \<lparr>PubShare_I = PubShare_I (PubVerShare_S (map ((!) encShares) js ! k)),
               PubShare_V = Mul suite (Some (PubShare_V (PubVerShare_S (map ((!) encShares) js ! k))))
                              (inverse x)\<rparr> \<and>
            (\<exists>r r'. DecShare verify newproof suite H (map ((!) X) js ! k) (sH ! (js ! k)) x
                       (map ((!) encShares) js ! k) r = (Inr (D ! k), r')))) \<and>
   (length encShares = length decShares \<longrightarrow>
      (\<exists>js. VerifyDecShareBatch verify suite G X encShares decShares = Inr (map ((!) decShares) js) \<and>
            js = filter (\<lambda>i. VerifyDecShare verify suite G (X ! i) (encShares ! i) (decShares ! i) = None)
                   [0..<length X] \<and>
            subseq (map ((!) decShares) js) decShares \<and>
            (\<forall>k<length js. VerifyDecShare verify suite G (X ! (js ! k)) (encShares ! (js ! k))
                              (map ((!) decShares) js ! k) = None)))"
proof (intro conjI)
  let ?ok = "\<lambda>i. VerifyEncShare verify suite H (X ! i) (sH ! i) (encShares ! i) = None"
  let ?js = "filter ?ok [0..<length X]"
  have pass: "\<forall>k<length ?js. ?ok (?js ! k)"
    using nth_mem [of _ ?js] by fastforce
  have "subseq (map ((!) encShares) (filter ?ok [0..<length encShares])) encShares"
    by (rule subseq_map_nth_filter)
  then have sE: "subseq (map ((!) encShares) ?js) encShares"
    using len by simp
  show "\<exists>js. VerifyEncShareBatch verify suite H X sH encShares
            = Inr (map ((!) X) js, map ((!) encShares) js) \<and>
         js = ?js \<and>
         subseq (map ((!) X) js) X \<and> subseq (map ((!) encShares) js) encShares \<and>
         (\<forall>k<length js. VerifyEncShare verify suite H (map ((!) X) js ! k) (sH ! (js ! k))
                           (map ((!) encShares) js ! k) = None)"
    using VerifyEncShareBatch_filter [OF len] subseq_map_nth_filter [of X ?ok] sE pass
    by simp
next
  from DecShareBatch_loop_inv [where verify = verify and newproof = newproof and suite = suite
      and H = H and X = X and sH = sH and x = x and encShares = encShares and rand = rand
      and m = "length encShares"]
  obtain js D rand' where
    st: "foldl (\<lambda>(K, E, D, rnd) i.
                    case DecShare verify newproof suite H (X ! i) (sH ! i) x (encShares ! i) rnd of
                      (Inr ds, rnd') \<Rightarrow> (K @ [X ! i], E @ [encShares ! i], D @ [ds], rnd')
                    | (Inl err, rnd') \<Rightarrow> (K, E, D, rnd'))
           ([], [], [], rand) [0..<length encShares]
       = (map ((!) X) js, map ((!) encShares) js, D, rand')"
    and lenD: "length D = length js" and srt: "sorted_wrt (<) js"
    and sub: "set js \<subseteq> {..<length encShares}"
    and each: "\<forall>k<length js. \<exists>r r'.
        DecShare verify newproof suite H (X ! (js ! k)) (sH ! (js ! k)) x (encShares ! (js ! k)) r
          = (Inr (D ! k), r')"
    by blast
  have res: "DecShareBatch verify newproof suite H X sH x encShares rand
            = (Inr (map ((!) X) js, map ((!) encShares) js, D), rand')"
    using len st by (simp add: DecShareBatch_def)
  have subX: "set js \<subseteq> {..<length X}" using sub len by simp
  have s1: "subseq (map ((!) X) js) X" by (rule subseq_map_nth_sorted [OF srt subX])
  have s2: "subseq (map ((!) encShares) js) encShares" by (rule subseq_map_nth_sorted [OF srt sub])
  have each': "\<forall>k<length js.
            VerifyEncShare verify suite H (map ((!) X) js ! k) (sH ! (js ! k))
              (map ((!) encShares) js ! k) = None \<and>
            PubVerShare_S (D ! k) =
              \<lparr>PubShare_I = PubShare_I (PubVerShare_S (map ((!) encShares) js ! k)),
               PubShare_V = Mul suite (Some (PubShare_V (PubVerShare_S (map ((!) encShares) js ! k))))
                              (inverse x)\<rparr> \<and>
            (\<exists>r r'. DecShare verify newproof suite H (map ((!) X) js ! k) (sH ! (js ! k)) x
                       (map ((!) encShares) js ! k) r = (Inr (D ! k), r'))"
  proof (intro allI impI)
    fix k assume k: "k < length js"
    with each obtain r r' where
      d: "DecShare verify newproof suite H (X ! (js ! k)) (sH ! (js ! k)) x (encShares ! (js ! k)) r
          = (Inr (D ! k), r')" by blast
    from DecShare_Inr [OF d] d k
    show "VerifyEncShare verify suite H (map ((!) X) js ! k) (sH ! (js ! k))
              (map ((!) encShares) js ! k) = None \<and>
            PubVerShare_S (D ! k) =
              \<lparr>PubShare_I = PubShare_I (PubVerShare_S (map ((!) encShares) js ! k)),
               PubShare_V = Mul suite (Some (PubShare_V (PubVerShare_S (map ((!) encShares) js ! k))))
                              (inverse x)\<rparr> \<and>
            (\<exists>r r'. DecShare verify newproof suite H (map ((!) X) js ! k) (sH ! (js ! k)) x
                       (map ((!) encShares) js ! k) r = (Inr (D ! k), r'))"
      by auto
  qed
  from res lenD srt subX s1 s2 each'
  show "\<exists>js D rand'.
         DecShareBatch verify newproof suite H X sH x encShares rand
            = (Inr (map ((!) X) js, map ((!) encShares) js, D), rand') \<and>
         length D = length js \<and> sorted_wrt (<) js \<and> set js \<subseteq> {..<length X} \<and>
         subseq (map ((!) X) js) X \<and> subseq (map ((!) encShares) js) encShares \<and>
         (\<forall>k<length js.
            VerifyEncShare verify suite H (map ((!) X) js ! k) (sH ! (js ! k))
              (map ((!) encShares) js ! k) = None \<and>
            PubVerShare_S (D ! k) =
              \<lparr>PubShare_I = PubShare_I (PubVerShare_S (map ((!) encShares) js ! k)),
               PubShare_V = Mul suite (Some (PubShare_V (PubVerShare_S (map ((!) encShares) js ! k))))
                              (inverse x)\<rparr> \<and>
            (\<exists>r r'. DecShare verify newproof suite H (map ((!) X) js ! k) (sH ! (js ! k)) x
                       (map ((!) encShares) js ! k) r = (Inr (D ! k), r')))"
    by blast
next
  show "length encShares = length decShares \<longrightarrow>
      (\<exists>js. VerifyDecShareBatch verify suite G X encShares decShares = Inr (map ((!) decShares) js) \<and>
            js = filter (\<lambda>i. VerifyDecShare verify suite G (X ! i) (encShares ! i) (decShares ! i) = None)
                   [0..<length X] \<and>
            subseq (map ((!) decShares) js) decShares \<and>
            (\<forall>k<length js. VerifyDecShare verify suite G (X ! (js ! k)) (encShares ! (js ! k))
                              (map ((!) decShares) js ! k) = None))"
  proof
    assume l2: "length encShares = length decShares"
    let ?ok = "\<lambda>i. VerifyDecShare verify suite G (X ! i) (encShares ! i) (decShares ! i) = None"
    let ?js = "filter ?ok [0..<length X]"
    have lx: "length X = length encShares" using len by simp
    have pass: "\<forall>k<length ?js. ?ok (?js ! k)"
      using nth_mem [of _ ?js] by fastforce
    have "subseq (map ((!) decShares) (filter ?ok [0..<length decShares])) decShares"
      by (rule subseq_map_nth_filter)
    then have sD: "subseq (map ((!) decShares) ?js) decShares"
      using lx l2 by simp
    show "\<exists>js. VerifyDecShareBatch verify suite G X encShares decShares = Inr (map ((!) decShares) js) \<and>
            js = ?js \<and>
            subseq (map ((!) decShares) js) decShares \<and>
            (\<forall>k<length js. VerifyDecShare verify suite G (X ! (js ! k)) (encShares ! (js ! k))
                              (map ((!) decShares) js ! k) = None)"
      using VerifyDecShareBatch_filter [OF lx l2] sD pass by simp
  qed
qed

text \<open>
  Two shares on the concrete suite, the second one checked against a wrong commitment
  (and, for \<open>VerifyDecShareBatch\<close>, a second decrypted share that is not a decryption):
  the first is kept and the second dropped, without an error.
\<close>

theorem batch_alignment_witness:
  "length [2, 2 :: rat] = length [3, 4 :: rat] \<and> length [3, 4 :: rat] = length [toy_enc, toy_enc] \<and>
   VerifyEncShareBatch Verify toy_suite 1 [2, 2] [3, 4] [toy_enc, toy_enc] = Inr ([2], [toy_enc]) \<and>
   DecShareBatch Verify NewDLEQProof toy_suite 1 [2, 2] [3, 4] 2 [toy_enc, toy_enc] 0
     = (Inr ([2], [toy_enc], [toy_dec]), 1) \<and>
   VerifyDecShareBatch Verify toy_suite 1 [2, 2] [toy_enc, toy_enc] [toy_dec, toy_enc] = Inr [toy_dec]"
proof -
  have l1: "length [2, 2 :: rat] = length [3, 4 :: rat]" by simp
  have l2: "length [3, 4 :: rat] = length [toy_enc, toy_enc]" by simp
  have a: "VerifyEncShare Verify toy_suite 1 2 3 toy_enc = None"
    by (simp add: VerifyEncShare_def Verify_def challenge_def toy_suite_def toy_enc_def)
  have b: "VerifyEncShare Verify toy_suite 1 2 4 toy_enc \<noteq> None"
    by (simp add: VerifyEncShare_def Verify_def challenge_def toy_suite_def toy_enc_def)
  have c: "VerifyDecShare Verify toy_suite 1 2 toy_enc toy_dec = None"
    by (simp add: VerifyDecShare_def Verify_def challenge_def toy_suite_def toy_enc_def toy_dec_def)
  have d: "VerifyDecShare Verify toy_suite 1 2 toy_enc toy_enc \<noteq> None"
    by (simp add: VerifyDecShare_def Verify_def challenge_def toy_suite_def toy_enc_def)
  have u: "[0..<2] = [0, 1]" by (simp add: upt_rec)
  note ba = batch_alignment [OF l1 l2, where verify = Verify and suite = toy_suite and H = 1
      and G = 1 and decShares = "[toy_dec, toy_enc]"]
  from ba a b u
  have e: "VerifyEncShareBatch Verify toy_suite 1 [2, 2] [3, 4] [toy_enc, toy_enc] = Inr ([2], [toy_enc])"
    by simp
  from ba c d u
  have f: "VerifyDecShareBatch Verify toy_suite 1 [2, 2] [toy_enc, toy_enc] [toy_dec, toy_enc] = Inr [toy_dec]"
    by simp
  have n: "NewDLEQProof toy_suite 1 3 2 0 =
      (Inr (\<lparr>DLEQ_C = 20, DLEQ_R = - 38, DLEQ_VG = 2, DLEQ_VH = 6\<rparr>, 2, 6), 1)"
    by (simp add: NewDLEQProof_def challenge_def toy_suite_def)
  have d1: "DecShare Verify NewDLEQProof toy_suite 1 2 3 2 toy_enc 0 = (Inr toy_dec, 1)"
    using a n by (simp add: DecShare_def toy_suite_def toy_enc_def toy_dec_def)
  have d2: "DecShare Verify NewDLEQProof toy_suite 1 2 4 2 toy_enc 1 = (Inl errorEncVerification, 1)"
    using b by (auto simp: DecShare_def VerifyEncShare_def split: option.splits)
  have g: "DecShareBatch Verify NewDLEQProof toy_suite 1 [2, 2] [3, 4] 2 [toy_enc, toy_enc] 0
     = (Inr ([2], [toy_enc], [toy_dec]), 1)"
    using d1 d2 u by (simp add: DecShareBatch_def)
  from e f g show ?thesis by simp
qed

section \<open>The concrete suite meets the contract\<close>

lemma toy_group_contract: "group_contract toy_suite"
  by (simp add: group_contract_def toy_suite_def algebra_simps)

lemma toy_embed_contract: "embed_contract toy_suite"
proof -
  have a: "(of_int (uint b) :: rat) + 1 \<noteq> 0" for b :: byte
    by (metis add_less_same_cancel2 less_numeral_extra(1) of_nat_less_0_iff of_nat_unat of_int_uint)
  have b: "\<lfloor>(of_int (uint b) :: rat) + 1\<rfloor> - 1 = uint b" for b :: byte
    by (simp del: of_int_uint)
  show ?thesis
    unfolding embed_contract_def toy_suite_def
    using a b by (auto simp del: of_int_uint simp add: word_of_int_uint split: list.splits)
qed

text \<open>The encoding on RFC 4648 test vectors and on the two characters of the URL alphabet.\<close>

lemma EncodeToString_foobar: "EncodeToString [102, 111, 111, 98, 97, 114] = ''Zm9vYmFy''"
  by (simp add: encodeURL_def)

lemma EncodeToString_fo: "EncodeToString [102, 111] = ''Zm8''"
  by (simp add: encodeURL_def)

lemma EncodeToString_f: "EncodeToString [102] = ''Zg''"
  by (simp add: encodeURL_def)

lemma EncodeToString_url: "EncodeToString [0xfb, 0xff] = ''-_8''"
  by (simp add: encodeURL_def)

section \<open>Ed25519 key clamping\<close>

lemma byte_f8: "(0xf8::byte) = NOT (mask 3)"
  by (simp add: mask_eq_exp_minus_1)

lemma byte_3f: "(0x3f::byte) = mask 6"
  by (simp add: mask_eq_exp_minus_1)

lemma byte_7f: "(0x7f::byte) = mask 7"
  by (simp add: mask_eq_exp_minus_1)

lemma bit_int_64: "bit (64::int) k \<longleftrightarrow> k = 6"
  using bit_exp_iff [where ?'a = int and m = 6 and n = k] by simp

lemma bit_byte_40: "bit (0x40::byte) k \<longleftrightarrow> k = 6"
  by (auto simp: bit_int_64)

lemma and_f8_idem: "((x::byte) AND 0xf8) AND 0xf8 = x AND 0xf8"
  by (simp add: and.assoc)

lemma clamp31_top: "(((x::byte) AND 0x3f) OR 0x40) AND 0xc0 = 0x40"
  by (simp add: bit.conj_disj_distrib2 and.assoc)

lemma bit_f8: "bit ((x::byte) AND 0xf8) k \<longleftrightarrow> 3 \<le> k \<and> bit x k"
  unfolding byte_f8 by (auto simp: bit_simps dest: bit_imp_le_length)

lemma bit_31: "bit (((x::byte) AND 0x3f) OR 0x40) k \<longleftrightarrow> k = 6 \<or> (k < 6 \<and> bit x k)"
  unfolding byte_3f by (auto simp: bit_or_iff bit_and_iff bit_mask_iff bit_byte_40 bit_int_64)

lemma clamp31_alt: "(((x::byte) AND 0x7f) OR 0x40) = ((x AND 0x3f) OR 0x40)"
  unfolding byte_3f byte_7f
  by (rule bit_eqI) (auto simp: bit_or_iff bit_and_iff bit_mask_iff bit_byte_40 bit_int_64)

text \<open>
  C7. For every stream (nil stands for the global stream), \<open>NewKey\<close> of the
  edwards25519 suite takes \<open>buffer = NonZeroBytes(32, stream)\<close>, hashes it with
  SHA-512 to \<open>h\<close> (64 bytes), and passes to \<open>SetBytes\<close> the 32 bytes \<open>key\<close> that are
  the first 32 bytes of \<open>h\<close> with bits 0 to 2 of byte 0 cleared, bit 7 of byte 31
  cleared and bit 6 of byte 31 set; all other bits are those of \<open>h\<close>. So
  \<open>key[0] & 0xf8 = key[0]\<close> and \<open>key[31] & 0xc0 = 0x40\<close>.
\<close>

theorem NewKey_ed25519_clamping:
  assumes nz: "NonZeroBytes 32 (case stream of None \<Rightarrow> Stream | Some st \<Rightarrow> st) = (buffer, stream')"
    and len: "length (Sum512 buffer) = 64"
  shows "(let key = take 32 (fst (NewKey_scalar NonZeroBytes Sum512 Stream stream));
              h = Sum512 buffer
          in NewKey_ed25519 NonZeroBytes Sum512 SetBytes Stream stream = (SetBytes key, stream') \<and>
             length key = 32 \<and>
             key ! 0 = h ! 0 AND 0xf8 \<and>
             key ! 31 = (h ! 31 AND 0x7f) OR 0x40 \<and>
             (\<forall>i. 0 < i \<and> i < 31 \<longrightarrow> key ! i = h ! i) \<and>
             (\<forall>k. bit (key ! 0) k \<longleftrightarrow> 3 \<le> k \<and> bit (h ! 0) k) \<and>
             (\<forall>k. bit (key ! 31) k \<longleftrightarrow> k = 6 \<or> (k < 6 \<and> bit (h ! 31) k)) \<and>
             key ! 0 AND 0xf8 = key ! 0 \<and>
             key ! 31 AND 0xc0 = 0x40)"
proof -
  define h where "h = Sum512 buffer"
  define sc where "sc = (h[0 := h ! 0 AND 0xf8])[31 := h ! 31 AND 0x3f, 31 := (h ! 31 AND 0x3f) OR 0x40]"
  have lh: "length h = 64" using len by (simp add: h_def)
  have s: "NewKey_scalar NonZeroBytes Sum512 Stream stream = (sc, stream')"
    using nz lh by (simp add: NewKey_scalar_def Let_def h_def sc_def)
  have k0: "take 32 sc ! 0 = h ! 0 AND 0xf8"
    using lh by (simp add: sc_def)
  have k31: "take 32 sc ! 31 = (h ! 31 AND 0x3f) OR 0x40"
    using lh by (simp add: sc_def)
  have mid: "\<forall>i. 0 < i \<and> i < 31 \<longrightarrow> take 32 sc ! i = h ! i"
    using lh by (simp add: sc_def)
  have lk: "length (take 32 sc) = 32"
    using lh by (simp add: sc_def)
  show ?thesis
    unfolding Let_def s fst_conv h_def [symmetric]
    using k0 k31 mid lk s
    by (simp add: NewKey_ed25519_def bit_f8 bit_31 and_f8_idem clamp31_top clamp31_alt)
qed

text \<open>A stream that yields ones and a hash that yields 64 bytes \<open>0xff\<close>: the key starts with
  \<open>0xf8\<close> and ends with \<open>0x7f\<close>.\<close>

theorem NewKey_ed25519_clamping_witness:
  "(\<lambda>n r. (replicate n (1::byte), Suc r)) 32 (case None of None \<Rightarrow> (0::nat) | Some st \<Rightarrow> st)
      = (replicate 32 1, 1) \<and>
   length ((\<lambda>b. replicate 64 (0xff::byte)) (replicate 32 (1::byte))) = 64 \<and>
   (let key = take 32 (fst (NewKey_scalar (\<lambda>n r. (replicate n (1::byte), Suc r))
                              (\<lambda>b. replicate 64 (0xff::byte)) (0::nat) None))
    in NewKey_ed25519 (\<lambda>n r. (replicate n (1::byte), Suc r)) (\<lambda>b. replicate 64 (0xff::byte))
         (\<lambda>bs. bs) (0::nat) None = (key, 1) \<and>
       length key = 32 \<and> key ! 0 = 0xf8 \<and> key ! 31 = 0x7f \<and> key ! 1 = 0xff)"
proof -
  have a: "(\<lambda>n r. (replicate n (1::byte), Suc r)) 32 (case None of None \<Rightarrow> (0::nat) | Some st \<Rightarrow> st)
      = (replicate 32 1, 1)" by simp
  have b: "length ((\<lambda>b. replicate 64 (0xff::byte)) (replicate 32 (1::byte))) = 64" by simp
  from NewKey_ed25519_clamping [of "\<lambda>n r. (replicate n (1::byte), Suc r)" "0::nat" None
      "replicate 32 1" 1 "\<lambda>b. replicate 64 (0xff::byte)" "\<lambda>bs. bs", OF a b]
  show ?thesis
    by (simp add: Let_def)
qed

section \<open>Key pairs\<close>

text \<open>
  C8. For every key pair \<open>kp\<close> that \<open>Gen\<close> or \<open>NewKeyPair\<close> produces from a suite whose
  \<open>Mul(nil, x)\<close> is the multiple \<open>x\<close> of the base point: \<open>kp.Secret\<close> is the scalar
  \<open>NewKey\<close> drew, \<open>kp.Public\<close> is the base point times \<open>kp.Secret\<close>, and \<open>kp.PubId()\<close>
  is the unpadded URL base64 encoding of the hash of the marshalled \<open>kp.Public\<close>. The
  result is a function of \<open>kp\<close> alone, so repeated calls return the same string.
\<close>

theorem KeyPair_public_and_PubId:
  assumes nil_base: "\<forall>x. Mul suite None x = Mul suite (Some (Base suite)) x"
    and gen: "kp = fst (Gen suite random) \<or> kp = fst (NewKeyPair suite random)"
  shows "Suite kp = suite \<and>
         Secret kp = fst (NewKey suite random) \<and>
         Public kp = Mul suite (Some (Base suite)) (Secret kp) \<and>
         PubId kp = EncodeToString (Hash suite (fst (MarshalBinary suite (Public kp))))"
  using assms
  by (auto simp: Gen_def NewKeyPair_def PubId_def Sum_def Let_def split: prod.splits)

text \<open>The key pair from the stream state 0 on the concrete suite: secret 2, public 2.\<close>

theorem KeyPair_public_and_PubId_witness:
  "(\<forall>x. Mul toy_suite None x = Mul toy_suite (Some (Base toy_suite)) x) \<and>
   Secret (fst (Gen toy_suite 0)) = 2 \<and>
   Public (fst (Gen toy_suite 0)) = 2 \<and>
   Public (fst (NewKeyPair toy_suite 0)) = 2 \<and>
   PubId (fst (Gen toy_suite 0)) = ''Ag''"
proof -
  have n: "\<forall>x. Mul toy_suite None x = Mul toy_suite (Some (Base toy_suite)) x"
    by (simp add: toy_suite_def)
  have s: "fst (NewKey toy_suite 0) = 2" by (simp add: toy_suite_def)
  have e: "EncodeToString [2] = ''Ag''" by (simp add: encodeURL_def)
  from KeyPair_public_and_PubId [OF n, of "fst (Gen toy_suite 0)" 0]
    KeyPair_public_and_PubId [OF n, of "fst (NewKeyPair toy_suite 0)" 0] n s e
  show ?thesis
    by (simp add: toy_suite_def)
qed

text \<open>
  C10. \<open>PubId\<close> returns a string and no error. When \<open>MarshalBinary\<close> returns an error
  \<open>e\<close>, \<open>PubId\<close> still returns the encoding of the hash of the buffer that came with it.
\<close>

theorem PubId_discards_marshal_error:
  "snd (MarshalBinary (Suite p) (Public p)) = Some e \<longrightarrow>
     PubId p = EncodeToString (Sum (Suite p) (fst (MarshalBinary (Suite p) (Public p))))"
  by (simp add: PubId_def Let_def split: prod.splits)

text \<open>With a marshalling that fails and returns an empty buffer, the identifier is the
  encoding of the hash of the empty buffer (empty, as the concrete hash is the identity).\<close>

theorem PubId_discards_marshal_error_witness:
  "snd (MarshalBinary (Suite \<lparr>Suite = failing_marshal_suite, Public = 2, Secret = 2\<rparr>)
         (Public \<lparr>Suite = failing_marshal_suite, Public = 2, Secret = 2\<rparr>)) = Some errorMarshal \<and>
   PubId \<lparr>Suite = failing_marshal_suite, Public = 2, Secret = 2\<rparr> = []"
  using PubId_discards_marshal_error [of "\<lparr>Suite = failing_marshal_suite, Public = 2, Secret = 2\<rparr>" errorMarshal]
  by (simp add: failing_marshal_suite_def toy_suite_def Sum_def)

section \<open>ElGamal round trip\<close>

text \<open>
  C9. For a suite that meets the contract, a private scalar \<open>a\<close> with public key
  \<open>A = Mul(nil, a)\<close> and a message \<open>m\<close>: if \<open>ElGamalEncrypt(group, A, m)\<close> returns
  \<open>(K, C, remainder)\<close>, then \<open>ElGamalDecrypt(group, a, K, C)\<close> returns without error the
  prefix of \<open>m\<close> that \<open>Pick\<close> embedded, that is \<open>m\<close> without \<open>remainder\<close>, and all of
  \<open>m\<close> when the remainder is empty. This holds for every state of the random stream.
\<close>

theorem ElGamal_roundtrip:
  assumes gc: "group_contract grp" and ec: "embed_contract grp"
    and pub: "A = Mul grp None a"
    and enc: "ElGamalEncrypt grp A m rand = ((K, C, remainder), rand')"
  shows "ElGamalDecrypt grp a K C = Inr (take (length m - length remainder) m) \<and>
         take (length m - length remainder) m @ remainder = m \<and>
         (remainder = [] \<longrightarrow> ElGamalDecrypt grp a K C = Inr m)"
proof -
  obtain M rem1 rand1 where pk: "PointPick grp m rand = ((M, rem1), rand1)"
    by (metis surj_pair)
  obtain k rand2 where sp: "ScalarPick grp rand1 = (k, rand2)"
    by (metis surj_pair)
  from enc pk sp have K: "K = Mul grp None k" and C: "C = Mul grp (Some A) k + M"
    and r: "remainder = rem1"
    by (auto simp: ElGamalEncrypt_def Let_def)
  from ec pk r have le: "length remainder \<le> length m"
    and dr: "drop (length m - length remainder) m = remainder"
    and data: "Data grp M = Inr (take (length m - length remainder) m)"
    unfolding embed_contract_def by (auto dest!: spec [of _ m] spec [of _ rand])
  have nb: "\<And>x. Mul grp None x = Mul grp (Some (Base grp)) x"
    and assoc: "\<And>P a b. Mul grp (Some (Mul grp (Some P) a)) b = Mul grp (Some P) (a * b)"
    using gc by (auto simp: group_contract_def)
  have "Mul grp (Some K) a = Mul grp (Some A) k"
    by (simp add: K pub nb assoc mult.commute)
  then have "C - Mul grp (Some K) a = M"
    by (simp add: C)
  then have d: "ElGamalDecrypt grp a K C = Inr (take (length m - length remainder) m)"
    by (simp add: ElGamalDecrypt_def data)
  have ap: "take (length m - length remainder) m @ remainder = m"
    using dr append_take_drop_id [of "length m - length remainder" m] by simp
  from d ap show ?thesis by auto
qed

text \<open>On the concrete suite, whose points hold one byte: of the message \<open>[7, 9]\<close> the
  byte 7 is embedded and comes back.\<close>

theorem ElGamal_roundtrip_witness:
  "group_contract toy_suite \<and> embed_contract toy_suite \<and>
   (5::rat) = Mul toy_suite None 5 \<and>
   ElGamalEncrypt toy_suite 5 [7, 9] 0 = ((2, 18, [9]), 1) \<and>
   ElGamalDecrypt toy_suite 5 2 18 = Inr [7]"
proof -
  have p: "(5::rat) = Mul toy_suite None 5" by (simp add: toy_suite_def)
  have e: "ElGamalEncrypt toy_suite 5 [7, 9] 0 = ((2, 18, [9]), 1)"
    by (simp add: ElGamalEncrypt_def toy_suite_def)
  from ElGamal_roundtrip [OF toy_group_contract toy_embed_contract p e]
    toy_group_contract toy_embed_contract p e
  show ?thesis by simp
qed

section \<open>Lagrange interpolation over a field\<close>

lemma lagrange_sum_factor:
  fixes z u :: "'a::field"
  assumes fin: "finite S" and u: "u \<in> S"
  shows "lagrange_sum z S (\<lambda>w. (w - u) * q w) = (z - u) * lagrange_sum z (S - {u}) q"
proof -
  have sp: "lagrange_sum z S (\<lambda>w. (w - u) * q w)
      = (\<Sum>a\<in>S - {u}. (a - u) * q a * (\<Prod>b\<in>S - {a}. (z - b) / (a - b)))"
    using fin u by (simp add: sum.remove [where x = u])
  have tm: "(a - u) * q a * (\<Prod>b\<in>S - {a}. (z - b) / (a - b))
      = (z - u) * (q a * (\<Prod>b\<in>S - {u} - {a}. (z - b) / (a - b)))"
    if a: "a \<in> S - {u}" for a
  proof -
    have ne: "a - u \<noteq> 0" using a by auto
    have mem: "u \<in> S - {a}" using a u by auto
    have fin': "finite (S - {a})" using fin by simp
    have eq: "S - {a} - {u} = S - {u} - {a}" by auto
    have "(\<Prod>b\<in>S - {a}. (z - b) / (a - b))
        = (z - u) / (a - u) * (\<Prod>b\<in>S - {u} - {a}. (z - b) / (a - b))"
      using prod.remove [OF fin' mem, of "\<lambda>b. (z - b) / (a - b)"] by (simp add: eq)
    then show ?thesis using ne by simp
  qed
  show ?thesis
    unfolding sp by (simp add: tm sum_distrib_left)
qed

lemma lagrange_sum_const:
  "lagrange_sum z S (\<lambda>w. c) = c * lagrange_sum z S (\<lambda>w. 1)"
  by (simp add: sum_distrib_left)

lemma lagrange_sum_one:
  fixes z :: "'a::field"
  assumes "finite S" "S \<noteq> {}"
  shows "lagrange_sum z S (\<lambda>w. 1) = 1"
  using assms
proof (induction "card S" arbitrary: S rule: less_induct)
  case less
  show ?case
  proof (cases "\<exists>u v. u \<in> S \<and> v \<in> S \<and> u \<noteq> v")
    case False
    with less.prems obtain a where "S = {a}" by blast
    then show ?thesis by simp
  next
    case True
    then obtain u v where u: "u \<in> S" and v: "v \<in> S" and uv: "u \<noteq> v" by blast
    define c where "c = 1 / (v - u)"
    have fin: "finite S" by fact
    have cu: "card (S - {u}) < card S" by (rule card_Diff1_less [OF fin u])
    have cv: "card (S - {v}) < card S" by (rule card_Diff1_less [OF fin v])
    have nu: "S - {u} \<noteq> {}" and nv: "S - {v} \<noteq> {}" using u v uv by auto
    have iu: "lagrange_sum z (S - {u}) (\<lambda>w. 1) = 1"
      using less.hyps [OF cu _ nu] fin by simp
    have iv: "lagrange_sum z (S - {v}) (\<lambda>w. 1) = 1"
      using less.hyps [OF cv _ nv] fin by simp
    have vc: "(v - u) * c = 1" using uv by (simp add: c_def)
    have one: "(w - u) * c - (w - v) * c = 1" for w
    proof -
      have "(w - u) * c - (w - v) * c = (v - u) * c" by (simp add: algebra_simps)
      with vc show ?thesis by simp
    qed
    have "lagrange_sum z S (\<lambda>w. 1)
        = lagrange_sum z S (\<lambda>w. (w - u) * c - (w - v) * c)"
      by (simp only: one)
    also have "\<dots> = lagrange_sum z S (\<lambda>w. (w - u) * c) - lagrange_sum z S (\<lambda>w. (w - v) * c)"
      by (simp add: sum_subtractf left_diff_distrib)
    also have "\<dots> = (z - u) * lagrange_sum z (S - {u}) (\<lambda>w. c)
                    - (z - v) * lagrange_sum z (S - {v}) (\<lambda>w. c)"
      by (simp only: lagrange_sum_factor [OF fin u] lagrange_sum_factor [OF fin v])
    also have "\<dots> = (z - u) * c - (z - v) * c"
      using iu iv by (simp only: lagrange_sum_const [where c = c] mult_1_right)
    also have "\<dots> = 1" by (rule one)
    finally show ?thesis .
  qed
qed

lemma horner_factor:
  fixes u :: "'a::field"
  shows "\<exists>ds. length ds \<le> length cs - 1 \<and> (\<forall>w. horner cs w = horner cs u + (w - u) * horner ds w)"
proof (induction cs)
  case Nil
  show ?case by (rule exI [of _ "[]"]) simp
next
  case (Cons c cs)
  then obtain ds where l: "length ds \<le> length cs - 1"
    and f: "\<forall>w. horner cs w = horner cs u + (w - u) * horner ds w" by blast
  show ?case
  proof (cases cs)
    case Nil
    show ?thesis by (rule exI [of _ "[]"]) (simp add: Nil)
  next
    case (Cons d cs')
    have "horner (c # cs) w = horner (c # cs) u + (w - u) * horner (horner cs u # ds) w" for w
    proof -
      have "horner cs w = horner cs u + (w - u) * horner ds w"
        using f by blast
      then have "horner (c # cs) w = (horner cs u + (w - u) * horner ds w) * w + c"
        by simp
      then show ?thesis by (simp add: algebra_simps)
    qed
    moreover have "length (horner cs u # ds) \<le> length (c # cs) - 1"
      using l Cons by simp
    ultimately show ?thesis by blast
  qed
qed

lemma lagrange_sum_horner:
  fixes z :: "'a::field"
  shows "finite S \<Longrightarrow> length cs \<le> card S \<Longrightarrow> lagrange_sum z S (horner cs) = horner cs z"
proof (induction "length cs" arbitrary: cs S rule: less_induct)
  case less
  show ?case
  proof (cases cs)
    case Nil
    then show ?thesis by simp
  next
    case (Cons c cs')
    with less.prems have "card S \<noteq> 0" by auto
    with less.prems obtain u where u: "u \<in> S" by (cases "S = {}") auto
    obtain ds where l: "length ds \<le> length cs - 1"
      and f: "\<forall>w. horner cs w = horner cs u + (w - u) * horner ds w"
      using horner_factor [of cs u] by blast
    have fin: "finite S" by fact
    have ne: "S \<noteq> {}" using u by auto
    have lt: "length ds < length cs" using l Cons by simp
    have cd: "length ds \<le> card (S - {u})"
      using l less.prems u by (simp add: card_Diff_singleton)
    have ih: "lagrange_sum z (S - {u}) (horner ds) = horner ds z"
      using less.hyps [OF lt _ cd] fin by simp
    have "lagrange_sum z S (horner cs)
        = lagrange_sum z S (\<lambda>w. horner cs u + (w - u) * horner ds w)"
    proof (rule sum.cong [OF refl])
      fix a assume "a \<in> S"
      have "horner cs a = horner cs u + (a - u) * horner ds a" using f by blast
      then show "horner cs a * (\<Prod>b\<in>S - {a}. (z - b) / (a - b))
          = (horner cs u + (a - u) * horner ds a) * (\<Prod>b\<in>S - {a}. (z - b) / (a - b))"
        by simp
    qed
    also have "\<dots> = lagrange_sum z S (\<lambda>w. horner cs u) + lagrange_sum z S (\<lambda>w. (w - u) * horner ds w)"
      by (simp add: sum.distrib distrib_right)
    also have "\<dots> = horner cs u + (z - u) * horner ds z"
      by (simp only: lagrange_sum_const [where c = "horner cs u"] lagrange_sum_one [OF fin ne]
            lagrange_sum_factor [OF fin u] ih mult_1_right)
    also have "\<dots> = horner cs z" using f by metis
    finally show ?thesis .
  qed
qed

section \<open>Consequences of the contract\<close>

lemma Mul_zero:
  fixes suite :: "('s::field, 'p::ab_group_add, 'r) suite"
  assumes "group_contract suite"
  shows "Mul suite (Some P) 0 = 0"
proof -
  have "Mul suite (Some P) (0 + 0) = Mul suite (Some P) 0 + Mul suite (Some P) 0"
    using assms unfolding group_contract_def by blast
  then show ?thesis by simp
qed

lemma Mul_add:
  fixes suite :: "('s::field, 'p::ab_group_add, 'r) suite"
  assumes "group_contract suite"
  shows "Mul suite (Some P) (a + b) = Mul suite (Some P) a + Mul suite (Some P) b"
  using assms unfolding group_contract_def by blast

lemma Mul_add_point:
  fixes suite :: "('s::field, 'p::ab_group_add, 'r) suite"
  assumes "group_contract suite"
  shows "Mul suite (Some (P + Q)) a = Mul suite (Some P) a + Mul suite (Some Q) a"
  using assms unfolding group_contract_def by blast

lemma Mul_Mul:
  fixes suite :: "('s::field, 'p::ab_group_add, 'r) suite"
  assumes "group_contract suite"
  shows "Mul suite (Some (Mul suite (Some P) a)) b = Mul suite (Some P) (a * b)"
  using assms unfolding group_contract_def by blast

lemma Mul_one:
  fixes suite :: "('s::field, 'p::ab_group_add, 'r) suite"
  assumes "group_contract suite"
  shows "Mul suite (Some P) 1 = P"
  using assms unfolding group_contract_def by blast

lemma Mul_nil:
  fixes suite :: "('s::field, 'p::ab_group_add, 'r) suite"
  assumes "group_contract suite"
  shows "Mul suite None x = Mul suite (Some (Base suite)) x"
  using assms unfolding group_contract_def by blast

lemma Mul_sum_list:
  fixes suite :: "('s::field, 'p::ab_group_add, 'r) suite"
  assumes gc: "group_contract suite"
  shows "sum_list (map (\<lambda>s. Mul suite (Some P) (f s)) xs) = Mul suite (Some P) (sum_list (map f xs))"
  by (induction xs) (simp_all add: Mul_zero [OF gc] Mul_add [OF gc])

lemma dedup_shares_distinct:
  "distinct (map PubShare_I shares) \<Longrightarrow> set seen \<inter> PubShare_I ` set shares = {} \<Longrightarrow>
   dedup_shares seen shares = shares"
proof (induction shares arbitrary: seen)
  case Nil
  show ?case by simp
next
  case (Cons s shares)
  have "set (PubShare_I s # seen) \<inter> PubShare_I ` set shares = {}"
    using Cons.prems by auto
  with Cons show ?case by auto
qed

lemma lagrange_coeff_set:
  fixes sel :: "'p PubShare list"
  assumes d: "distinct (map PubShare_I sel)" and s: "s \<in> set sel"
    and inj: "inj_on (of_int :: int \<Rightarrow> 's::field) (PubShare_I ` set sel)"
  shows "(lagrange_coeff sel s :: 's) =
     (\<Prod>b\<in>(\<lambda>s'. of_int (PubShare_I s')) ` set sel - {of_int (PubShare_I s)}.
         (0 - b) / (of_int (PubShare_I s) - b))"
proof -
  let ?x = "\<lambda>s'. (of_int (PubShare_I s') :: 's)"
  let ?others = "filter (\<lambda>s'. PubShare_I s' \<noteq> PubShare_I s) sel"
  have dsel: "distinct sel" using d by (simp add: distinct_map)
  have injI: "inj_on PubShare_I (set sel)" using d by (simp add: distinct_map)
  have injx: "inj_on ?x (set sel)"
    using comp_inj_on [OF injI inj] by (simp add: comp_def)
  have so: "set ?others = set sel - {s}"
    using s injI by (auto dest: inj_onD)
  have d_oth: "distinct ?others" using dsel by simp
  have img: "?x ` (set sel - {s}) = ?x ` set sel - {?x s}"
    using inj_on_image_set_diff [OF injx, of "set sel" "{s}"] s by auto
  have injx': "inj_on ?x (set sel - {s})"
    using injx by (rule inj_on_subset) auto
  have num: "prod_list (map (\<lambda>s'. - ?x s') ?others) = (\<Prod>b\<in>?x ` set sel - {?x s}. 0 - b)"
  proof -
    have "prod_list (map (\<lambda>s'. - ?x s') ?others) = (\<Prod>s'\<in>set sel - {s}. - ?x s')"
      using prod.distinct_set_conv_list [OF d_oth, of "\<lambda>s'. - ?x s'"] so by simp
    also have "\<dots> = (\<Prod>b\<in>?x ` (set sel - {s}). 0 - b)"
      by (simp add: prod.reindex [OF injx'])
    finally show ?thesis by (simp only: img)
  qed
  have den: "prod_list (map (\<lambda>s'. ?x s - ?x s') ?others) = (\<Prod>b\<in>?x ` set sel - {?x s}. ?x s - b)"
  proof -
    have "prod_list (map (\<lambda>s'. ?x s - ?x s') ?others) = (\<Prod>s'\<in>set sel - {s}. ?x s - ?x s')"
      using prod.distinct_set_conv_list [OF d_oth, of "\<lambda>s'. ?x s - ?x s'"] so by simp
    also have "\<dots> = (\<Prod>b\<in>?x ` (set sel - {s}). ?x s - b)"
      by (simp add: prod.reindex [OF injx'])
    finally show ?thesis by (simp only: img)
  qed
  show ?thesis
    unfolding lagrange_coeff_def Let_def num den by (simp only: prod_dividef)
qed

lemma RecoverCommit_interpolates:
  fixes suite :: "('s::field, 'p::ab_group_add, 'r) suite"
  assumes gc: "group_contract suite"
    and d: "distinct (map PubShare_I shares)"
    and inj: "inj_on (of_int :: int \<Rightarrow> 's) (PubShare_I ` set shares)"
    and val: "\<forall>sh\<in>set shares. PubShare_V sh = Mul suite (Some G) (horner cs (of_int (PubShare_I sh)))"
    and t0: "0 \<le> t" and tl: "t \<le> int (length shares)" and lc: "length cs \<le> nat t"
  shows "RecoverCommit suite shares t n = Inr (Mul suite (Some G) (horner cs 0))"
proof -
  let ?x = "\<lambda>s'. (of_int (PubShare_I s') :: 's)"
  let ?sel = "take (nat t) shares"
  have dd: "dedup_shares [] shares = shares"
    by (rule dedup_shares_distinct [OF d]) simp
  have sub: "set ?sel \<subseteq> set shares" by (rule set_take_subset)
  have dsel: "distinct (map PubShare_I ?sel)"
    using d by (simp add: take_map [symmetric])
  have dsel': "distinct ?sel" using dsel by (simp add: distinct_map)
  have injsel: "inj_on (of_int :: int \<Rightarrow> 's) (PubShare_I ` set ?sel)"
    using inj sub by (auto intro: inj_on_subset)
  have injI: "inj_on PubShare_I (set ?sel)" using dsel by (simp add: distinct_map)
  have injx: "inj_on ?x (set ?sel)"
    using comp_inj_on [OF injI injsel] by (simp add: comp_def)
  have len: "length ?sel = nat t" using tl t0 by simp
  have card: "card (?x ` set ?sel) = nat t"
    using card_image [OF injx] distinct_card [OF dsel'] len by simp
  have each: "Mul suite (Some (PubShare_V sh)) (lagrange_coeff ?sel sh)
      = Mul suite (Some G) (horner cs (?x sh) *
          (\<Prod>b\<in>?x ` set ?sel - {?x sh}. (0 - b) / (?x sh - b)))"
    if "sh \<in> set ?sel" for sh
  proof -
    have "PubShare_V sh = Mul suite (Some G) (horner cs (?x sh))"
      using val sub that by blast
    then show ?thesis
      by (simp only: Mul_Mul [OF gc] lagrange_coeff_set [OF dsel that injsel])
  qed
  have "sum_list (map (\<lambda>sh. Mul suite (Some (PubShare_V sh)) (lagrange_coeff ?sel sh)) ?sel)
      = sum_list (map (\<lambda>sh. Mul suite (Some G) (horner cs (?x sh) *
          (\<Prod>b\<in>?x ` set ?sel - {?x sh}. (0 - b) / (?x sh - b)))) ?sel)"
    by (rule arg_cong [where f = sum_list], rule map_cong [OF refl]) (rule each)
  also have "\<dots> = Mul suite (Some G) (sum_list (map (\<lambda>sh. horner cs (?x sh) *
          (\<Prod>b\<in>?x ` set ?sel - {?x sh}. (0 - b) / (?x sh - b))) ?sel))"
    by (rule Mul_sum_list [OF gc])
  also have "sum_list (map (\<lambda>sh. horner cs (?x sh) *
          (\<Prod>b\<in>?x ` set ?sel - {?x sh}. (0 - b) / (?x sh - b))) ?sel)
      = (\<Sum>sh\<in>set ?sel. horner cs (?x sh) *
          (\<Prod>b\<in>?x ` set ?sel - {?x sh}. (0 - b) / (?x sh - b)))"
    by (rule sum_list_distinct_conv_sum_set [OF dsel'])
  also have "\<dots> = lagrange_sum 0 (?x ` set ?sel) (horner cs)"
    by (simp add: sum.reindex [OF injx])
  also have "\<dots> = horner cs 0"
    by (rule lagrange_sum_horner) (simp_all add: card lc)
  finally have "sum_list (map (\<lambda>sh. Mul suite (Some (PubShare_V sh)) (lagrange_coeff ?sel sh)) ?sel)
      = Mul suite (Some G) (horner cs 0)" .
  then show ?thesis
    using tl by (simp add: RecoverCommit_def dd Let_def)
qed

section \<open>Completeness of the proofs, and what \<open>EncShares\<close> returns\<close>

lemma DLEQ_complete:
  fixes suite :: "('s::field, 'p::ab_group_add, 'r) suite"
  assumes gc: "group_contract suite"
    and np: "NewDLEQProof suite G H x rand = (Inr (p, xG, xH), rand')"
  shows "xG = Mul suite (Some G) x" and "xH = Mul suite (Some H) x"
    and "Verify suite p G H xG xH = None"
proof -
  obtain v r1 where v: "ScalarPick suite rand = (v, r1)" by (metis surj_pair)
  let ?c = "challenge suite (Mul suite (Some G) v) (Mul suite (Some H) v)"
  from np v have p: "p = \<lparr>DLEQ_C = ?c, DLEQ_R = v - ?c * x,
        DLEQ_VG = Mul suite (Some G) v, DLEQ_VH = Mul suite (Some H) v\<rparr>"
    and xG: "xG = Mul suite (Some G) x" and xH: "xH = Mul suite (Some H) x"
    by (auto simp: NewDLEQProof_def Let_def)
  show "xG = Mul suite (Some G) x" by fact
  show "xH = Mul suite (Some H) x" by fact
  have resp: "Mul suite (Some B) (v - c * x) + Mul suite (Some (Mul suite (Some B) x)) c
      = Mul suite (Some B) v" for B c
  proof -
    have "Mul suite (Some B) (v - c * x) + Mul suite (Some (Mul suite (Some B) x)) c
        = Mul suite (Some B) ((v - c * x) + x * c)"
      by (simp only: Mul_Mul [OF gc] Mul_add [OF gc])
    then show ?thesis by (simp add: mult.commute)
  qed
  show "Verify suite p G H xG xH = None"
    by (simp add: Verify_def Let_def p xG xH resp)
qed

lemma pick_scalars_length: "length (fst (pick_scalars suite k rand)) = k"
proof (induction k arbitrary: rand)
  case 0
  show ?case by simp
next
  case (Suc k)
  obtain c r1 where c: "ScalarPick suite rand = (c, r1)" by (metis surj_pair)
  obtain cs r2 where cs: "pick_scalars suite k r1 = (cs, r2)" by (metis surj_pair)
  from Suc [of r1] cs have "length cs = k" by simp
  with c cs show ?case by simp
qed

lemma NewPriPoly_Some:
  assumes "1 \<le> t"
  shows "\<exists>cs rand'. NewPriPoly suite t (Some s) rand = (Some \<lparr>PriPoly_coeffs = s # cs\<rparr>, rand') \<and>
           length (s # cs) = nat t"
proof -
  obtain cs r2 where ps: "pick_scalars suite (nat (t - 1)) rand = (cs, r2)" by (metis surj_pair)
  have "length cs = nat (t - 1)" using pick_scalars_length [of suite "nat (t - 1)" rand] ps by simp
  then have "length (s # cs) = nat t" using assms by simp
  moreover have "NewPriPoly suite t (Some s) rand = (Some \<lparr>PriPoly_coeffs = s # cs\<rparr>, r2)"
    using assms ps by (simp add: NewPriPoly_def)
  ultimately show ?thesis by blast
qed

lemma horner_point:
  fixes suite :: "('s::field, 'p::ab_group_add, 'r) suite"
  assumes gc: "group_contract suite"
  shows "foldl (\<lambda>acc c. Mul suite (Some acc) x + c) (Mul suite (Some B) a) (map (\<lambda>c. Mul suite (Some B) c) rs)
       = Mul suite (Some B) (foldl (\<lambda>acc c. acc * x + c) a rs)"
  by (induction rs arbitrary: a) (simp_all add: Mul_Mul [OF gc] Mul_add [OF gc, symmetric])

lemma PubPoly_Eval_Commit:
  fixes suite :: "('s::field, 'p::ab_group_add, 'r) suite"
  assumes gc: "group_contract suite" and ne: "PriPoly_coeffs p \<noteq> []"
  shows "PubPoly_Eval suite (PriPoly_Commit suite p (Some B)) i
       = Some \<lparr>PubShare_I = i, PubShare_V = Mul suite (Some B) (PriShare_V (PriPoly_Eval p i))\<rparr>"
proof -
  let ?cs = "PriPoly_coeffs p"
  obtain c_last rest where rv: "rev ?cs = c_last # rest"
    using ne by (cases "rev ?cs") auto
  have h: "horner ?cs (of_int i) = foldl (\<lambda>acc c. acc * of_int i + c) c_last rest"
    by (simp add: foldr_conv_foldl rv)
  have "rev (map (\<lambda>c. Mul suite (Some B) c) ?cs)
      = Mul suite (Some B) c_last # map (\<lambda>c. Mul suite (Some B) c) rest"
    by (simp add: rev_map rv)
  then show ?thesis
    by (simp add: PubPoly_Eval_def PriPoly_Commit_def PriPoly_Eval_def horner_point [OF gc] h)
qed

lemma NewDLEQProofBatch_loop_each:
  fixes suite :: "('s::field, 'p::ab_group_add, 'r) suite"
  assumes "length G = length H" "length H = length secrets"
  shows "\<exists>proofs xGs xHs rand'.
           NewDLEQProofBatch_loop suite G H secrets rand = (Inr (proofs, xGs, xHs), rand') \<and>
           length proofs = length G \<and> length xGs = length G \<and> length xHs = length G \<and>
           (\<forall>i<length G. \<exists>r r'. NewDLEQProof suite (G ! i) (H ! i) (secrets ! i) r
                                   = (Inr (proofs ! i, xGs ! i, xHs ! i), r'))"
  using assms
proof (induction G H secrets arbitrary: rand rule: list_induct3)
  case Nil
  show ?case by simp
next
  case (Cons g G h H x secrets)
  obtain res r1 where np: "NewDLEQProof suite g h x rand = (Inr res, r1)"
    using NewDLEQProof_total [of suite g h x rand] by blast
  obtain p xG xH where res: "res = (p, xG, xH)" by (cases res) auto
  from Cons.IH [of r1] obtain proofs xGs xHs r2 where
    lp: "NewDLEQProofBatch_loop suite G H secrets r1 = (Inr (proofs, xGs, xHs), r2)"
    and l: "length proofs = length G" "length xGs = length G" "length xHs = length G"
    and e: "\<forall>i<length G. \<exists>r r'. NewDLEQProof suite (G ! i) (H ! i) (secrets ! i) r
                                   = (Inr (proofs ! i, xGs ! i, xHs ! i), r')"
    by blast
  have each: "\<forall>i<length (g # G). \<exists>r r'.
      NewDLEQProof suite ((g # G) ! i) ((h # H) ! i) ((x # secrets) ! i) r
        = (Inr ((p # proofs) ! i, (xG # xGs) ! i, (xH # xHs) ! i), r')"
  proof (intro allI impI)
    fix i assume i: "i < length (g # G)"
    show "\<exists>r r'. NewDLEQProof suite ((g # G) ! i) ((h # H) ! i) ((x # secrets) ! i) r
        = (Inr ((p # proofs) ! i, (xG # xGs) ! i, (xH # xHs) ! i), r')"
    proof (cases i)
      case 0
      with np res show ?thesis by auto
    next
      case (Suc j)
      with i e show ?thesis by simp
    qed
  qed
  have "NewDLEQProofBatch_loop suite (g # G) (h # H) (x # secrets) rand
      = (Inr (p # proofs, xG # xGs, xH # xHs), r2)"
    using np res lp by simp
  with l each show ?case by (intro exI conjI) simp_all
qed

lemma EncShares_structure:
  fixes suite :: "('s::field, 'p::ab_group_add, 'r) suite"
  assumes gc: "group_contract suite" and t1: "1 \<le> t"
  shows "\<exists>cs encShares rand'.
     EncShares suite H X (Some s) t rand
       = (Inr (encShares, PriPoly_Commit suite \<lparr>PriPoly_coeffs = s # cs\<rparr> (Some H)), rand') \<and>
     length (s # cs) = nat t \<and> length encShares = length X \<and>
     (\<forall>i<length X.
        PubShare_I (PubVerShare_S (encShares ! i)) = int i + 1 \<and>
        PubShare_V (PubVerShare_S (encShares ! i))
          = Mul suite (Some (X ! i)) (horner (s # cs) (of_int (int i + 1))) \<and>
        Verify suite (PubVerShare_P (encShares ! i)) H (X ! i)
          (Mul suite (Some H) (horner (s # cs) (of_int (int i + 1))))
          (Mul suite (Some (X ! i)) (horner (s # cs) (of_int (int i + 1)))) = None)"
proof -
  let ?n = "length X"
  obtain cs r1 where npp: "NewPriPoly suite t (Some s) rand = (Some \<lparr>PriPoly_coeffs = s # cs\<rparr>, r1)"
    and lcs: "length (s # cs) = nat t"
    using NewPriPoly_Some [OF t1, of suite s rand] by blast
  let ?p = "\<lparr>PriPoly_coeffs = s # cs\<rparr>"
  let ?priShares = "PriPoly_Shares ?p (int ?n)"
  let ?vals = "map (\<lambda>i. PriShare_V (?priShares ! i)) [0..<?n]"
  let ?indices = "map (\<lambda>i. PriShare_I (?priShares ! i)) [0..<?n]"
  let ?HS = "map (\<lambda>i. H) [0..<?n]"
  have sh: "?priShares ! i = PriPoly_Eval ?p (int i + 1)" if "i < ?n" for i
    using that by (simp add: PriPoly_Shares_def add.commute)
  have vi: "?vals ! i = horner (s # cs) (of_int (int i + 1))" if "i < ?n" for i
    using that sh [OF that] by (simp add: PriPoly_Eval_def)
  have ii: "?indices ! i = int i + 1" if "i < ?n" for i
    using that sh [OF that] by (simp add: PriPoly_Eval_def)
  have l1: "length ?HS = length X" by simp
  have l2: "length X = length ?vals" by simp
  from NewDLEQProofBatch_loop_each [OF l1 l2, of suite r1]
  obtain proofs xGs xHs r2 where
    lp: "NewDLEQProofBatch_loop suite ?HS X ?vals r1 = (Inr (proofs, xGs, xHs), r2)"
    and lpr: "length proofs = ?n" and lxh: "length xHs = ?n"
    and each: "\<forall>i<?n. \<exists>r r'. NewDLEQProof suite (?HS ! i) (X ! i) (?vals ! i) r
                                   = (Inr (proofs ! i, xGs ! i, xHs ! i), r')"
    by auto
  have batch: "NewDLEQProofBatch suite ?HS X ?vals r1 = (Inr (proofs, xGs, xHs), r2)"
    using lp by (simp add: NewDLEQProofBatch_def)
  let ?enc = "map (\<lambda>i. \<lparr>PubVerShare_S = \<lparr>PubShare_I = ?indices ! i, PubShare_V = xHs ! i\<rparr>,
                          PubVerShare_P = proofs ! i\<rparr>) [0..<?n]"
  have res: "EncShares suite H X (Some s) t rand
       = (Inr (?enc, PriPoly_Commit suite ?p (Some H)), r2)"
    using npp batch by (simp add: EncShares_def Let_def)
  have props: "\<forall>i<length X.
        PubShare_I (PubVerShare_S (?enc ! i)) = int i + 1 \<and>
        PubShare_V (PubVerShare_S (?enc ! i))
          = Mul suite (Some (X ! i)) (horner (s # cs) (of_int (int i + 1))) \<and>
        Verify suite (PubVerShare_P (?enc ! i)) H (X ! i)
          (Mul suite (Some H) (horner (s # cs) (of_int (int i + 1))))
          (Mul suite (Some (X ! i)) (horner (s # cs) (of_int (int i + 1)))) = None"
  proof (intro allI impI)
    fix i assume i: "i < length X"
    from each i obtain r r' where
      np: "NewDLEQProof suite (?HS ! i) (X ! i) (?vals ! i) r = (Inr (proofs ! i, xGs ! i, xHs ! i), r')"
      by blast
    have hs: "?HS ! i = H" using i by simp
    note c = DLEQ_complete [OF gc np]
    have xg: "xGs ! i = Mul suite (Some H) (horner (s # cs) (of_int (int i + 1)))"
      using c(1) hs vi [OF i] by simp
    have xh: "xHs ! i = Mul suite (Some (X ! i)) (horner (s # cs) (of_int (int i + 1)))"
      using c(2) vi [OF i] by simp
    have v: "Verify suite (proofs ! i) H (X ! i) (xGs ! i) (xHs ! i) = None"
      using c(3) hs by simp
    have ei: "?enc ! i = \<lparr>PubVerShare_S = \<lparr>PubShare_I = ?indices ! i, PubShare_V = xHs ! i\<rparr>,
                          PubVerShare_P = proofs ! i\<rparr>"
      using i by simp
    show "PubShare_I (PubVerShare_S (?enc ! i)) = int i + 1 \<and>
        PubShare_V (PubVerShare_S (?enc ! i))
          = Mul suite (Some (X ! i)) (horner (s # cs) (of_int (int i + 1))) \<and>
        Verify suite (PubVerShare_P (?enc ! i)) H (X ! i)
          (Mul suite (Some H) (horner (s # cs) (of_int (int i + 1))))
          (Mul suite (Some (X ! i)) (horner (s # cs) (of_int (int i + 1)))) = None"
      unfolding ei using ii [OF i] xh xg v by simp
  qed
  have le: "length ?enc = length X" by simp
  from res lcs le props show ?thesis by blast
qed

lemma DecShare_correct:
  fixes suite :: "('s::field, 'p::ab_group_add, 'r) suite"
  assumes gc: "group_contract suite" and x0: "x \<noteq> 0"
    and X: "X = Mul suite (Some (Base suite)) x"
    and encV: "PubShare_V (PubVerShare_S enc) = Mul suite (Some X) v"
    and ver: "Verify suite (PubVerShare_P enc) H X sH (PubShare_V (PubVerShare_S enc)) = None"
  shows "\<exists>d r'. DecShare Verify NewDLEQProof suite H X sH x enc r = (Inr d, r') \<and>
           PubShare_I (PubVerShare_S d) = PubShare_I (PubVerShare_S enc) \<and>
           PubShare_V (PubVerShare_S d) = Mul suite (Some (Base suite)) v \<and>
           VerifyDecShare Verify suite (Base suite) X enc d = None"
proof -
  let ?G = "Base suite"
  let ?V = "Mul suite (Some (PubShare_V (PubVerShare_S enc))) (inverse x)"
  have V: "?V = Mul suite (Some ?G) v"
  proof -
    have "?V = Mul suite (Some ?G) (x * v * inverse x)"
      by (simp only: encV X Mul_Mul [OF gc])
    also have "x * v * inverse x = v" using x0 by simp
    finally show ?thesis .
  qed
  have ve: "VerifyEncShare Verify suite H X sH enc = None"
    using ver by (simp add: VerifyEncShare_def)
  obtain res r' where np: "NewDLEQProof suite ?G ?V x r = (Inr res, r')"
    using NewDLEQProof_total [of suite ?G ?V x r] by blast
  obtain P xG xH where res: "res = (P, xG, xH)" by (cases res) auto
  let ?d = "\<lparr>PubVerShare_S = \<lparr>PubShare_I = PubShare_I (PubVerShare_S enc), PubShare_V = ?V\<rparr>,
             PubVerShare_P = P\<rparr>"
  have ds: "DecShare Verify NewDLEQProof suite H X sH x enc r = (Inr ?d, r')"
    using ve np res by (simp add: DecShare_def Let_def)
  note c = DLEQ_complete [OF gc np [unfolded res]]
  have xg: "xG = X" using c(1) X by simp
  have xh: "xH = PubShare_V (PubVerShare_S enc)"
  proof -
    have "xH = Mul suite (Some ?G) (v * x)"
      using c(2) by (simp only: V Mul_Mul [OF gc])
    moreover have "PubShare_V (PubVerShare_S enc) = Mul suite (Some ?G) (x * v)"
      by (simp only: encV X Mul_Mul [OF gc])
    ultimately show ?thesis by (simp add: mult.commute)
  qed
  have vd: "VerifyDecShare Verify suite ?G X enc ?d = None"
    using c(3) xg xh by (simp add: VerifyDecShare_def)
  from ds vd V show ?thesis by (intro exI [of _ ?d] exI [of _ r']) simp
qed

lemma filter_upt_all: "\<forall>i<m. P i \<Longrightarrow> filter P [0..<m] = [0..<m]"
  by (simp add: filter_id_conv)

section \<open>Correctness of sharing\<close>

text \<open>
  C1. Let the suite meet the contract, let \<open>1 \<le> t \<le> n\<close>, let the \<open>n\<close> trustees have
  non-zero private keys \<open>xs\<close> and the public keys \<open>Mul(nil, x)\<close>, and let the indices
  \<open>1..n\<close> be distinct as scalars. Then for every base point \<open>H\<close>, secret \<open>s\<close> and
  state of the random stream, \<open>EncShares\<close> returns encrypted shares and a commitment
  polynomial without error; the commitment polynomial has a value \<open>sH\<close> at the index of
  every encrypted share; \<open>DecShare\<close> of every trustee on its own share with that \<open>sH\<close>
  returns a decrypted share, whatever the state \<open>rands i\<close> of the trustee's stream; and
  for every list \<open>js\<close> of at least \<open>t\<close> distinct trustees, \<open>RecoverSecret\<close> on their
  keys, encrypted shares and decrypted shares returns the point \<open>s\<cdot>G\<close> and no error.
  \<open>Verify\<close>, \<open>NewDLEQProof\<close> and \<open>RecoverCommit\<close> are the functions of the
  specification.
\<close>

theorem pvss_sharing_correct:
  fixes suite :: "('s::field, 'p::ab_group_add, 'r) suite"
  assumes gc: "group_contract suite"
    and t1: "1 \<le> t" and tn: "t \<le> int (length xs)"
    and keys: "\<forall>x\<in>set xs. x \<noteq> 0"
    and idx: "inj_on (of_int :: int \<Rightarrow> 's) {1..int (length xs)}"
    and dj: "distinct js" and sj: "set js \<subseteq> {..<length xs}" and lj: "t \<le> int (length js)"
  shows "\<exists>encShares pubPoly rand' decShares.
           EncShares suite H (map (Mul suite None) xs) (Some s) t rand
             = (Inr (encShares, pubPoly), rand') \<and>
           length encShares = length xs \<and> length decShares = length xs \<and>
           (\<forall>i<length xs. \<exists>sH rand_i'.
              PubPoly_Eval suite pubPoly (PubShare_I (PubVerShare_S (encShares ! i))) = Some sH \<and>
              DecShare Verify NewDLEQProof suite H (map (Mul suite None) xs ! i) (PubShare_V sH)
                (xs ! i) (encShares ! i) (rands i) = (Inr (decShares ! i), rand_i')) \<and>
           RecoverSecret Verify RecoverCommit suite (Base suite)
             (map ((!) (map (Mul suite None) xs)) js) (map ((!) encShares) js) (map ((!) decShares) js)
             t (int (length xs))
             = Inr (Mul suite (Some (Base suite)) s)"
proof -
  let ?G = "Base suite"
  let ?X = "map (Mul suite None) xs"
  let ?n = "length xs"
  have lX: "length ?X = ?n" by simp
  from EncShares_structure [OF gc t1, of H ?X s rand]
  obtain cs enc r1 where
    es: "EncShares suite H ?X (Some s) t rand
           = (Inr (enc, PriPoly_Commit suite \<lparr>PriPoly_coeffs = s # cs\<rparr> (Some H)), r1)"
    and lcs: "length (s # cs) = nat t" and lenc: "length enc = ?n"
    and pe: "\<forall>i<?n.
        PubShare_I (PubVerShare_S (enc ! i)) = int i + 1 \<and>
        PubShare_V (PubVerShare_S (enc ! i))
          = Mul suite (Some (?X ! i)) (horner (s # cs) (of_int (int i + 1))) \<and>
        Verify suite (PubVerShare_P (enc ! i)) H (?X ! i)
          (Mul suite (Some H) (horner (s # cs) (of_int (int i + 1))))
          (Mul suite (Some (?X ! i)) (horner (s # cs) (of_int (int i + 1)))) = None"
    unfolding lX by blast
  let ?pp = "PriPoly_Commit suite \<lparr>PriPoly_coeffs = s # cs\<rparr> (Some H)"
  let ?v = "\<lambda>i. horner (s # cs) (of_int (int i + 1) :: 's)"
  have ev: "PubPoly_Eval suite ?pp j
      = Some \<lparr>PubShare_I = j, PubShare_V = Mul suite (Some H) (horner (s # cs) (of_int j))\<rparr>" for j
    using PubPoly_Eval_Commit [OF gc, of "\<lparr>PriPoly_coeffs = s # cs\<rparr>" H j]
    by (simp add: PriPoly_Eval_def)
  have dec: "\<exists>d. (\<exists>r'. DecShare Verify NewDLEQProof suite H (?X ! i)
                 (Mul suite (Some H) (?v i)) (xs ! i) (enc ! i) (rands i) = (Inr d, r')) \<and>
           PubShare_I (PubVerShare_S d) = int i + 1 \<and>
           PubShare_V (PubVerShare_S d) = Mul suite (Some ?G) (?v i) \<and>
           VerifyDecShare Verify suite ?G (?X ! i) (enc ! i) d = None"
    if i: "i < ?n" for i
  proof -
    have x0: "xs ! i \<noteq> 0" using keys i by simp
    have Xi: "?X ! i = Mul suite (Some ?G) (xs ! i)" using i by (simp add: Mul_nil [OF gc])
    from pe i have a: "PubShare_I (PubVerShare_S (enc ! i)) = int i + 1"
      and b: "PubShare_V (PubVerShare_S (enc ! i)) = Mul suite (Some (?X ! i)) (?v i)"
      and c: "Verify suite (PubVerShare_P (enc ! i)) H (?X ! i) (Mul suite (Some H) (?v i))
                (Mul suite (Some (?X ! i)) (?v i)) = None"
      by blast+
    from c b have c': "Verify suite (PubVerShare_P (enc ! i)) H (?X ! i) (Mul suite (Some H) (?v i))
                (PubShare_V (PubVerShare_S (enc ! i))) = None" by simp
    from DecShare_correct [OF gc x0 Xi b c', of "rands i"] a
    show ?thesis by auto
  qed
  then obtain f where f: "\<forall>i<?n.
           (\<exists>r'. DecShare Verify NewDLEQProof suite H (?X ! i)
                 (Mul suite (Some H) (?v i)) (xs ! i) (enc ! i) (rands i) = (Inr (f i), r')) \<and>
           PubShare_I (PubVerShare_S (f i)) = int i + 1 \<and>
           PubShare_V (PubVerShare_S (f i)) = Mul suite (Some ?G) (?v i) \<and>
           VerifyDecShare Verify suite ?G (?X ! i) (enc ! i) (f i) = None"
    by metis
  let ?dec = "map f [0..<?n]"
  have ldec: "length ?dec = ?n" by simp
  have each: "\<forall>i<?n. \<exists>sH rand_i'.
              PubPoly_Eval suite ?pp (PubShare_I (PubVerShare_S (enc ! i))) = Some sH \<and>
              DecShare Verify NewDLEQProof suite H (?X ! i) (PubShare_V sH)
                (xs ! i) (enc ! i) (rands i) = (Inr (?dec ! i), rand_i')"
  proof (intro allI impI)
    fix i assume i: "i < ?n"
    from pe i have a: "PubShare_I (PubVerShare_S (enc ! i)) = int i + 1" by blast
    from f i obtain r' where "DecShare Verify NewDLEQProof suite H (?X ! i)
                 (Mul suite (Some H) (?v i)) (xs ! i) (enc ! i) (rands i) = (Inr (f i), r')" by blast
    with i a show "\<exists>sH rand_i'.
              PubPoly_Eval suite ?pp (PubShare_I (PubVerShare_S (enc ! i))) = Some sH \<and>
              DecShare Verify NewDLEQProof suite H (?X ! i) (PubShare_V sH)
                (xs ! i) (enc ! i) (rands i) = (Inr (?dec ! i), rand_i')"
      by (simp add: ev)
  qed
  let ?Xs = "map ((!) ?X) js" and ?Es = "map ((!) enc) js" and ?Ds = "map ((!) ?dec) js"
  have jn: "\<forall>k<length js. js ! k < ?n" using sj by (auto simp: subset_eq)
  have pass: "\<forall>k<length ?Xs. VerifyDecShare Verify suite ?G (?Xs ! k) (?Es ! k) (?Ds ! k) = None"
    using f jn by simp
  have batch: "VerifyDecShareBatch Verify suite ?G ?Xs ?Es ?Ds = Inr ?Ds"
  proof -
    have "VerifyDecShareBatch Verify suite ?G ?Xs ?Es ?Ds
        = Inr (map ((!) ?Ds) (filter (\<lambda>i. VerifyDecShare Verify suite ?G (?Xs ! i) (?Es ! i) (?Ds ! i) = None)
            [0..<length ?Xs]))"
      by (rule VerifyDecShareBatch_filter) simp_all
    also have "filter (\<lambda>i. VerifyDecShare Verify suite ?G (?Xs ! i) (?Es ! i) (?Ds ! i) = None)
            [0..<length ?Xs] = [0..<length ?Xs]"
      by (rule filter_upt_all [OF pass])
    also have "map ((!) ?Ds) [0..<length ?Xs] = ?Ds"
      using map_nth [of ?Ds] by simp
    finally show ?thesis .
  qed
  let ?shares = "map PubVerShare_S ?Ds"
  have sI: "map PubShare_I ?shares = map (\<lambda>j. int j + 1) js"
    using f sj by (auto simp: subset_eq)
  have d: "distinct (map PubShare_I ?shares)"
    unfolding sI using dj by (simp add: distinct_map inj_on_def)
  have sub: "PubShare_I ` set ?shares \<subseteq> {1..int ?n}"
  proof -
    have "PubShare_I ` set ?shares = set (map PubShare_I ?shares)" by (simp only: set_map)
    also have "\<dots> = (\<lambda>j. int j + 1) ` set js" unfolding sI by simp
    also have "\<dots> \<subseteq> {1..int ?n}" using sj by auto
    finally show ?thesis .
  qed
  have inj: "inj_on (of_int :: int \<Rightarrow> 's) (PubShare_I ` set ?shares)"
    using idx sub by (rule inj_on_subset)
  have val: "\<forall>sh\<in>set ?shares. PubShare_V sh = Mul suite (Some ?G) (horner (s # cs) (of_int (PubShare_I sh)))"
  proof
    fix sh assume "sh \<in> set ?shares"
    then obtain j where j: "j \<in> set js" and sh: "sh = PubVerShare_S (?dec ! j)" by auto
    from j sj have jn: "j < ?n" by auto
    with f sh show "PubShare_V sh = Mul suite (Some ?G) (horner (s # cs) (of_int (PubShare_I sh)))"
      by simp
  qed
  have t0: "0 \<le> t" using t1 by simp
  have tl: "t \<le> int (length ?shares)" using lj by simp
  have lc: "length (s # cs) \<le> nat t" using lcs by simp
  have rc: "RecoverCommit suite ?shares t (int ?n) = Inr (Mul suite (Some ?G) (horner (s # cs) 0))"
    by (rule RecoverCommit_interpolates [OF gc d inj val t0 tl lc])
  have rs: "RecoverSecret Verify RecoverCommit suite ?G ?Xs ?Es ?Ds t (int ?n)
      = Inr (Mul suite (Some ?G) s)"
    using batch rc lj by (simp add: RecoverSecret_def)
  from es lenc ldec each rs show ?thesis by blast
qed

text \<open>
  On the concrete suite: three trustees with the keys 2, 3, 4, threshold 2, secret 7; the
  third and the first trustee's shares recover the point 7.
\<close>

lemma upt_3: "[0..<3] = [0, 1, 2]"
  by (simp add: upt_rec)

lemma upto_3: "[1..3] = [1, 2, 3]"
  by (simp add: upto_rec1)

lemma toy_EncShares:
  "EncShares toy_suite 5 [2, 3, 4] (Some 7) 2 0
     = (Inr (toy_encShares, \<lparr>PubPoly_b = 5, PubPoly_commits = [35, 10]\<rparr>), 4)"
  by (simp add: EncShares_def NewPriPoly_def PriPoly_Shares_def PriPoly_Eval_def PriPoly_Commit_def
      NewDLEQProofBatch_def NewDLEQProof_def challenge_def toy_suite_def toy_encShares_def
      upt_3 upto_3)

lemma toy_DecShare_0:
  "DecShare Verify NewDLEQProof toy_suite 5 2 45 2 (toy_encShares ! 0) 0 = (Inr (toy_decShares ! 0), 1)"
  by (simp add: DecShare_def VerifyEncShare_def Verify_def NewDLEQProof_def challenge_def
      toy_suite_def toy_encShares_def toy_decShares_def)

lemma toy_DecShare_2:
  "DecShare Verify NewDLEQProof toy_suite 5 4 65 4 (toy_encShares ! 2) 0 = (Inr (toy_decShares ! 2), 1)"
  by (simp add: DecShare_def VerifyEncShare_def Verify_def NewDLEQProof_def challenge_def
      toy_suite_def toy_encShares_def toy_decShares_def)

lemma toy_PubPoly_Eval:
  "PubPoly_Eval toy_suite \<lparr>PubPoly_b = 5, PubPoly_commits = [35, 10]\<rparr> 1
     = Some \<lparr>PubShare_I = 1, PubShare_V = 45\<rparr>"
  "PubPoly_Eval toy_suite \<lparr>PubPoly_b = 5, PubPoly_commits = [35, 10]\<rparr> 3
     = Some \<lparr>PubShare_I = 3, PubShare_V = 65\<rparr>"
  by (simp_all add: PubPoly_Eval_def toy_suite_def)

theorem pvss_sharing_correct_witness:
  "group_contract toy_suite \<and> (1::int) \<le> 2 \<and> 2 \<le> int (length [2, 3, 4 :: rat]) \<and>
   (2::rat) \<noteq> 0 \<and> (3::rat) \<noteq> 0 \<and> (4::rat) \<noteq> 0 \<and>
   inj_on (of_int :: int \<Rightarrow> rat) {1..int (length [2, 3, 4 :: rat])} \<and>
   distinct [2, 0 :: nat] \<and> 2 \<le> int (length [2, 0 :: nat]) \<and>
   EncShares toy_suite 5 (map (Mul toy_suite None) [2, 3, 4]) (Some 7) 2 0
     = (Inr (toy_encShares, \<lparr>PubPoly_b = 5, PubPoly_commits = [35, 10]\<rparr>), 4) \<and>
   DecShare Verify NewDLEQProof toy_suite 5 2 45 2 (toy_encShares ! 0) 0 = (Inr (toy_decShares ! 0), 1) \<and>
   DecShare Verify NewDLEQProof toy_suite 5 4 65 4 (toy_encShares ! 2) 0 = (Inr (toy_decShares ! 2), 1) \<and>
   RecoverSecret Verify RecoverCommit toy_suite 1 [4, 2]
     [toy_encShares ! 2, toy_encShares ! 0] [toy_decShares ! 2, toy_decShares ! 0] 2 3 = Inr 7"
proof -
  have h1: "(1::int) \<le> 2" by simp
  have h2: "2 \<le> int (length [2, 3, 4 :: rat])" by simp
  have h3: "\<forall>x\<in>set [2, 3, 4 :: rat]. x \<noteq> 0" by simp
  have h4: "inj_on (of_int :: int \<Rightarrow> rat) {1..int (length [2, 3, 4 :: rat])}"
    by (simp add: inj_on_def)
  have h5: "distinct [2, 0 :: nat]" by simp
  have h6: "set [2, 0 :: nat] \<subseteq> {..<length [2, 3, 4 :: rat]}" by simp
  have h7: "2 \<le> int (length [2, 0 :: nat])" by simp
  have X: "map (Mul toy_suite None) [2, 3, 4] = [2, 3, 4]" by (simp add: toy_suite_def)
  from pvss_sharing_correct [OF toy_group_contract h1 h2 h3 h4 h5 h6 h7,
      where H = 5 and s = 7 and rand = 0 and rands = "\<lambda>i. 0"]
  obtain enc pp r dec where
    e: "EncShares toy_suite 5 (map (Mul toy_suite None) [2, 3, 4]) (Some 7) 2 0 = (Inr (enc, pp), r)"
    and d: "\<forall>i<length [2, 3, 4 :: rat]. \<exists>sH rand_i'.
              PubPoly_Eval toy_suite pp (PubShare_I (PubVerShare_S (enc ! i))) = Some sH \<and>
              DecShare Verify NewDLEQProof toy_suite 5 (map (Mul toy_suite None) [2, 3, 4] ! i)
                (PubShare_V sH) ([2, 3, 4] ! i) (enc ! i) 0 = (Inr (dec ! i), rand_i')"
    and rs: "RecoverSecret Verify RecoverCommit toy_suite (Base toy_suite)
             (map ((!) (map (Mul toy_suite None) [2, 3, 4])) [2, 0]) (map ((!) enc) [2, 0])
             (map ((!) dec) [2, 0]) 2 (int (length [2, 3, 4 :: rat]))
             = Inr (Mul toy_suite (Some (Base toy_suite)) 7)"
    by blast
  from e [unfolded X] have enc: "enc = toy_encShares"
    and pp: "pp = \<lparr>PubPoly_b = 5, PubPoly_commits = [35, 10]\<rparr>"
    by (simp_all add: toy_EncShares)
  have i0: "PubShare_I (PubVerShare_S (toy_encShares ! 0)) = 1"
    and i2: "PubShare_I (PubVerShare_S (toy_encShares ! 2)) = 3"
    by (simp_all add: toy_encShares_def)
  from d [unfolded X, rule_format, of 0] have d0: "dec ! 0 = toy_decShares ! 0"
    by (simp add: enc pp i0 toy_PubPoly_Eval toy_DecShare_0)
  from d [unfolded X, rule_format, of 2] have d2: "dec ! 2 = toy_decShares ! 2"
    by (simp add: enc pp i2 toy_PubPoly_Eval toy_DecShare_2)
  from rs [unfolded X] have "RecoverSecret Verify RecoverCommit toy_suite 1 [4, 2]
     [toy_encShares ! 2, toy_encShares ! 0] [toy_decShares ! 2, toy_decShares ! 0] 2 3 = Inr 7"
    by (simp add: enc d0 d2) (simp add: toy_suite_def)
  with toy_group_contract h4 toy_EncShares toy_DecShare_0 toy_DecShare_2 show ?thesis
    unfolding X by simp
qed

end
